theory Spec2Isabelle
  imports Complex_Main "HOL-Library.Log_Nat" "HOL-Library.AList" "HOL-Library.Product_Lexorder"
begin

section \<open>JavaScript strings and values\<close>

text \<open>
  Strings are byte strings. \<open>toLowerCase\<close> and \<open>trim\<close> are modelled on ASCII:
  the letters A-Z are lowered, and the white space removed by \<open>trim\<close> (and matched
  by the regular expression class \<open>\s\<close>) is tab, line feed, vertical tab, form feed,
  carriage return and space. On strings of ASCII characters this is what JavaScript
  does. Outside ASCII the source does more than the model: its \<open>trim\<close> and \<open>\s\<close> also
  take U+00A0, U+FEFF, the line and paragraph separators and the Unicode space
  separators, and its \<open>toLowerCase\<close> also lowers the letters of other scripts.
\<close>

definition isSpace :: "char \<Rightarrow> bool" where
  "isSpace c = (of_char c \<in> {9, 10, 11, 12, 13, 32 :: nat})"

definition toLowerChar :: "char \<Rightarrow> char" where
  "toLowerChar c =
     (let n = (of_char c :: nat) in if 65 \<le> n \<and> n \<le> 90 then char_of (n + 32) else c)"

definition toLowerCase :: "string \<Rightarrow> string" where
  "toLowerCase s = map toLowerChar s"

definition trim :: "string \<Rightarrow> string" where
  "trim s = rev (dropWhile isSpace (rev (dropWhile isSpace s)))"

fun startsWith :: "string \<Rightarrow> string \<Rightarrow> bool" where
  "startsWith s [] = True"
| "startsWith [] (k # ks) = False"
| "startsWith (c # cs) (k # ks) = (c = k \<and> startsWith cs ks)"

text \<open>\<open>str_includes s key\<close> is \<open>s.includes(key)\<close>: \<open>key\<close> occurs in \<open>s\<close> as a substring.\<close>

fun str_includes :: "string \<Rightarrow> string \<Rightarrow> bool" where
  "str_includes [] key = (key = [])"
| "str_includes (c # cs) key = (startsWith (c # cs) key \<or> str_includes cs key)"

text \<open>
  The values a \<open>statusInOrg\<close> slot holds at run time. Besides strings, the property
  read \<open>statusMap[normalized]\<close> of \<open>normalizeStatus\<close> can yield a member that the object
  literal inherits from \<open>Object.prototype\<close>; \<open>JInherited name\<close> stands for that function
  or object. It is truthy and has no \<open>toLowerCase\<close> method.
\<close>

datatype js_value = JStr string | JInherited string

datatype js_error =
  TypeError | CircuitOpen | NotFound | NetworkError string | NonTermination | RetryLoopExit

section \<open>Status normalisation (src/normalizer/src/status.ts)\<close>

text \<open>The object literal \<open>statusMap\<close>, its own properties in insertion order.\<close>

definition statusMap :: "(string \<times> string) list" where
  "statusMap =
    [(''active'', ''active''), (''employed'', ''active''), (''current'', ''active''),
     (''working'', ''active''), (''full-time'', ''active''), (''fulltime'', ''active''),
     (''part-time'', ''active''), (''parttime'', ''active''), (''contractor'', ''active''),
     (''consultant'', ''active''), (''intern'', ''active''),
     (''inactive'', ''inactive''), (''on leave'', ''inactive''), (''onleave'', ''inactive''),
     (''leave'', ''inactive''), (''sabbatical'', ''inactive''), (''maternity'', ''inactive''),
     (''paternity'', ''inactive''), (''medical'', ''inactive''), (''suspended'', ''inactive''),
     (''left'', ''left''), (''terminated'', ''left''), (''former'', ''left''),
     (''resigned'', ''left''), (''retired'', ''left''), (''departed'', ''left''),
     (''exited'', ''left''), (''quit'', ''left''), (''fired'', ''left''),
     (''removed'', ''left'')]"

text \<open>
  The property names every object literal inherits from \<open>Object.prototype\<close>. A lookup
  \<open>statusMap[key]\<close> walks the prototype chain, so it finds them too.
\<close>

definition objectPrototypeMembers :: "string list" where
  "objectPrototypeMembers =
    [''constructor'', ''__defineGetter__'', ''__defineSetter__'', ''hasOwnProperty'',
     ''__lookupGetter__'', ''__lookupSetter__'', ''isPrototypeOf'', ''propertyIsEnumerable'',
     ''toString'', ''valueOf'', ''__proto__'', ''toLocaleString'']"

definition statusMap_get :: "string \<Rightarrow> js_value option" where
  "statusMap_get key =
     (case map_of statusMap key of
        Some v \<Rightarrow> Some (JStr v)
      | None \<Rightarrow> if key \<in> set objectPrototypeMembers then Some (JInherited key) else None)"

text \<open>
  \<open>normalizeStatus\<close>: \<open>None\<close> is \<open>undefined\<close> or \<open>null\<close>. Exact match first (the
  property read), then the first own key, in insertion order, that occurs in the input;
  otherwise \<open>inactive\<close>.
\<close>

definition normalizeStatus :: "string option \<Rightarrow> js_value" where
  "normalizeStatus status =
     (case status of
        None \<Rightarrow> JStr ''active''
      | Some s \<Rightarrow>
          if s = [] then JStr ''active''
          else
            let normalized = trim (toLowerCase s) in
            (case statusMap_get normalized of
               Some v \<Rightarrow> v
             | None \<Rightarrow>
                 (case find (\<lambda>(key, value). str_includes normalized key) statusMap of
                    Some (key, value) \<Rightarrow> JStr value
                  | None \<Rightarrow> JStr ''inactive'')))"

text \<open>
  \<open>normalizeStatus\<close> applied to a value it returned: a string is normalised again; on
  an inherited member \<open>status.toLowerCase\<close> is not a function and the call throws.
\<close>

definition normalizeStatus_value :: "js_value \<Rightarrow> js_error + js_value" where
  "normalizeStatus_value v =
     (case v of JStr s \<Rightarrow> Inr (normalizeStatus (Some s)) | JInherited m \<Rightarrow> Inl TypeError)"

definition canonicalStatus :: "js_value \<Rightarrow> bool" where
  "canonicalStatus v = (v = JStr ''active'' \<or> v = JStr ''inactive'' \<or> v = JStr ''left'')"

lemma statusMap_values:
  "(k, v) \<in> set statusMap \<Longrightarrow> v = ''active'' \<or> v = ''inactive'' \<or> v = ''left''"
  unfolding statusMap_def by auto

lemma normalizeStatus_fixed_points:
  "normalizeStatus (Some ''active'') = JStr ''active''"
  "normalizeStatus (Some ''inactive'') = JStr ''inactive''"
  "normalizeStatus (Some ''left'') = JStr ''left''"
  by code_simp+

lemma normalizeStatus_cases:
  "canonicalStatus (normalizeStatus status) \<or>
   (\<exists>s. status = Some s \<and> s \<noteq> [] \<and> trim (toLowerCase s) \<in> set objectPrototypeMembers \<and>
        normalizeStatus status = JInherited (trim (toLowerCase s)))"
proof (cases status)
  case None
  then show ?thesis by (simp add: normalizeStatus_def canonicalStatus_def)
next
  case (Some s)
  show ?thesis
  proof (cases "s = []")
    case True
    with Some show ?thesis by (simp add: normalizeStatus_def canonicalStatus_def)
  next
    case False
    let ?n = "trim (toLowerCase s)"
    show ?thesis
    proof (cases "map_of statusMap ?n")
      case (Some v)
      then have "(?n, v) \<in> set statusMap" by (rule map_of_SomeD)
      then have "v = ''active'' \<or> v = ''inactive'' \<or> v = ''left''" by (rule statusMap_values)
      with Some \<open>status = Some s\<close> False show ?thesis
        by (auto simp: normalizeStatus_def statusMap_get_def canonicalStatus_def)
    next
      case None
      note exact = None
      show ?thesis
      proof (cases "?n \<in> set objectPrototypeMembers")
        case True
        with exact \<open>status = Some s\<close> False show ?thesis
          by (simp add: normalizeStatus_def statusMap_get_def)
      next
        case notmember: False
        show ?thesis
        proof (cases "find (\<lambda>(key, value). str_includes ?n key) statusMap")
          case None
          with exact notmember \<open>status = Some s\<close> False show ?thesis
            by (simp add: normalizeStatus_def statusMap_get_def canonicalStatus_def)
        next
          case (Some kv)
          obtain k v where kv: "kv = (k, v)" by (cases kv)
          from Some kv have "(k, v) \<in> set statusMap"
            by (auto simp: find_Some_iff in_set_conv_nth)
          then have "v = ''active'' \<or> v = ''inactive'' \<or> v = ''left''" by (rule statusMap_values)
          with Some kv exact notmember \<open>status = Some s\<close> False show ?thesis
            by (auto simp: normalizeStatus_def statusMap_get_def canonicalStatus_def)
        qed
      qed
    qed
  qed
qed

text \<open>
  Away from the inherited property names the function lands in the three canonical
  statuses, and each of them is a fixed point.
\<close>

lemma normalizeStatus_idempotent_on_canonical:
  "canonicalStatus (normalizeStatus status) \<Longrightarrow>
   normalizeStatus_value (normalizeStatus status) = Inr (normalizeStatus status)"
  by (auto simp: canonicalStatus_def normalizeStatus_value_def normalizeStatus_fixed_points)

lemma toLowerChar_not_upper:
  "\<not> (65 \<le> (of_char (toLowerChar c) :: nat) \<and> (of_char (toLowerChar c) :: nat) \<le> 90)"
  by (auto simp: toLowerChar_def Let_def)

lemma toLowerCase_no_upper:
  "c \<in> set (trim (toLowerCase s)) \<Longrightarrow> \<not> (65 \<le> (of_char c :: nat) \<and> (of_char c :: nat) \<le> 90)"
proof -
  assume "c \<in> set (trim (toLowerCase s))"
  then have "c \<in> set (toLowerCase s)"
    by (auto simp: trim_def dest!: set_dropWhileD)
  then obtain d where "c = toLowerChar d" by (auto simp: toLowerCase_def)
  then show ?thesis using toLowerChar_not_upper by simp
qed

lemma inherited_lowercase_names:
  assumes "trim (toLowerCase s) \<in> set objectPrototypeMembers"
  shows "trim (toLowerCase s) = ''constructor'' \<or> trim (toLowerCase s) = ''__proto__''"
proof -
  let ?n = "trim (toLowerCase s)"
  have no: "\<And>c. c \<in> set ?n \<Longrightarrow> \<not> (65 \<le> (of_char c :: nat) \<and> (of_char c :: nat) \<le> 90)"
    by (rule toLowerCase_no_upper)
  have "?n \<noteq> ''__defineGetter__''" using no [of "CHR ''G''"] by auto
  moreover have "?n \<noteq> ''__defineSetter__''" using no [of "CHR ''S''"] by auto
  moreover have "?n \<noteq> ''hasOwnProperty''" using no [of "CHR ''O''"] by auto
  moreover have "?n \<noteq> ''__lookupGetter__''" using no [of "CHR ''G''"] by auto
  moreover have "?n \<noteq> ''__lookupSetter__''" using no [of "CHR ''S''"] by auto
  moreover have "?n \<noteq> ''isPrototypeOf''" using no [of "CHR ''P''"] by auto
  moreover have "?n \<noteq> ''propertyIsEnumerable''" using no [of "CHR ''I''"] by auto
  moreover have "?n \<noteq> ''toString''" using no [of "CHR ''S''"] by auto
  moreover have "?n \<noteq> ''valueOf''" using no [of "CHR ''O''"] by auto
  moreover have "?n \<noteq> ''toLocaleString''" using no [of "CHR ''L''"] by auto
  ultimately show ?thesis using assms by (auto simp: objectPrototypeMembers_def)
qed

text \<open>
  For every other ASCII input, that is unless the lowered and trimmed input is
  \<open>constructor\<close> or \<open>__proto__\<close>, the result is one of the three statuses and normalising
  it again returns it. The input is restricted to ASCII because only there \<open>trim\<close> and
  \<open>toLowerCase\<close> are the source's: \<open>constructor\<close> behind a no-break space is trimmed to
  \<open>constructor\<close> by the source and not by the model.
\<close>

lemma normalizeStatus_idempotent_elsewhere:
  assumes "\<forall>s. status = Some s \<longrightarrow>
            (\<forall>c\<in>set s. (of_char c :: nat) < 128) \<and>
            trim (toLowerCase s) \<noteq> ''constructor'' \<and> trim (toLowerCase s) \<noteq> ''__proto__''"
  shows "canonicalStatus (normalizeStatus status) \<and>
         normalizeStatus_value (normalizeStatus status) = Inr (normalizeStatus status)"
proof -
  from normalizeStatus_cases [of status] assms have "canonicalStatus (normalizeStatus status)"
    using inherited_lowercase_names by blast
  then show ?thesis by (simp add: normalizeStatus_idempotent_on_canonical)
qed

text \<open>
  Claim C9 (idempotence of \<open>normalizeStatus\<close>) fails on the code at the input
  \<open>constructor\<close>: the exact-match lookup \<open>statusMap[normalized]\<close> finds the member
  inherited from \<open>Object.prototype\<close>, which is truthy, so the function returns it instead
  of one of the three statuses; applying \<open>normalizeStatus\<close> to that result throws a
  TypeError instead of returning the same value.
\<close>

theorem normalizeStatus_constructor_not_idempotent:
  "normalizeStatus (Some ''constructor'') = JInherited ''constructor'' \<and>
   \<not> canonicalStatus (normalizeStatus (Some ''constructor'')) \<and>
   normalizeStatus_value (normalizeStatus (Some ''constructor'')) = Inl TypeError \<and>
   normalizeStatus_value (normalizeStatus (Some ''constructor'')) \<noteq>
     Inr (normalizeStatus (Some ''constructor''))"
  by code_simp

section \<open>IEEE double arithmetic\<close>

text \<open>
  JavaScript numbers are IEEE-754 doubles. The integer counters of the program are exact;
  products with the literals \<open>0.7\<close> and \<open>1.2\<close> and the error-rate quotients are rounded
  to the nearest double, ties to even. \<open>roundDouble\<close> is that rounding on rationals in
  the normal range (53 significant bits, no overflow or subnormals). It matters:
  \<open>Math.floor(350 * 0.7)\<close> is 244, not 245.
\<close>

definition roundHalfEven :: "rat \<Rightarrow> int" where
  "roundHalfEven x =
     (let f = \<lfloor>x\<rfloor>; d = x - of_int f in
      if d < 1 / 2 then f else if 1 / 2 < d then f + 1 else if even f then f else f + 1)"

text \<open>\<open>exponent2 p\<close> is the binary exponent of \<open>p > 0\<close>: the \<open>e\<close> with \<open>2^e \<le> p < 2^(e+1)\<close>.\<close>

definition exponent2 :: "rat \<Rightarrow> int" where
  "exponent2 p = (if 1 \<le> p then bitlen \<lfloor>p\<rfloor> - 1 else - bitlen (\<lceil>1 / p\<rceil> - 1))"

definition roundPositive :: "rat \<Rightarrow> rat" where
  "roundPositive p =
     (let e = exponent2 p in
      if e \<le> 52 then of_int (roundHalfEven (p * 2 ^ nat (52 - e))) / 2 ^ nat (52 - e)
      else of_int (roundHalfEven (p / 2 ^ nat (e - 52))) * 2 ^ nat (e - 52))"

definition roundDouble :: "rat \<Rightarrow> rat" where
  "roundDouble p =
     (if p = 0 then 0 else if p < 0 then - roundPositive (- p) else roundPositive p)"

lemma roundHalfEven_close: "\<bar>of_int (roundHalfEven x) - x\<bar> \<le> 1 / 2"
proof -
  have lo: "of_int \<lfloor>x\<rfloor> \<le> x" and hi: "x < of_int \<lfloor>x\<rfloor> + 1"
    by linarith+
  show ?thesis
    unfolding roundHalfEven_def Let_def using lo hi by (auto simp: abs_le_iff)
qed

lemma roundDouble_close:
  assumes "1 \<le> p" "p < 2 ^ 53"
  shows "\<bar>roundDouble p - p\<bar> \<le> 1 / 2"
proof -
  let ?n = "\<lfloor>p\<rfloor>"
  have n1: "1 \<le> ?n" using assms(1) by linarith
  have nlt: "?n < 2 ^ 53" using assms(2) by (simp add: floor_less_iff)
  from n1 have b: "2 ^ nat (bitlen ?n - 1) \<le> ?n" using bitlen_bounds [of ?n] by simp
  have e0: "0 \<le> bitlen ?n - 1" using n1 by (auto simp: bitlen_alt_def)
  from b nlt have "(2::int) ^ nat (bitlen ?n - 1) < 2 ^ 53" by linarith
  then have "nat (bitlen ?n - 1) < 53"
    using power_less_imp_less_exp [of "2::int" "nat (bitlen ?n - 1)" 53] by fastforce
  then have e52: "bitlen ?n - 1 \<le> 52" by linarith
  define k where "k = nat (52 - (bitlen ?n - 1))"
  have rd: "roundDouble p = of_int (roundHalfEven (p * 2 ^ k)) / 2 ^ k"
    using assms(1) e52 e0
    by (simp add: roundDouble_def roundPositive_def exponent2_def k_def Let_def)
  define d where "d = \<bar>of_int (roundHalfEven (p * 2 ^ k)) - p * 2 ^ k\<bar>"
  have d: "d \<le> 1 / 2" "0 \<le> d"
    unfolding d_def by (rule roundHalfEven_close) simp
  have pk: "(1::rat) \<le> 2 ^ k" by simp
  have "d / 2 ^ k \<le> (1 / 2) / 1"
    using d pk by (intro frac_le) simp_all
  moreover have "d / 2 ^ k = \<bar>roundDouble p - p\<bar>"
  proof -
    have "d / 2 ^ k = \<bar>(of_int (roundHalfEven (p * 2 ^ k)) - p * 2 ^ k) / 2 ^ k\<bar>"
      by (simp add: d_def)
    also have "(of_int (roundHalfEven (p * 2 ^ k)) - p * 2 ^ k) / 2 ^ k = roundDouble p - p"
      by (simp add: rd diff_divide_distrib)
    finally show ?thesis .
  qed
  ultimately show ?thesis by simp
qed

lemma double_literals:
  "roundDouble (7 / 10) = 3152519739159347 / 4503599627370496"
  "roundDouble (12 / 10) = 5404319552844595 / 4503599627370496"
  "roundDouble (8 / 10) = 3602879701896397 / 4503599627370496"
  "roundDouble (3 / 10) = 5404319552844595 / 18014398509481984"
  "roundDouble (5 / 100) = 3602879701896397 / 72057594037927936"
  by code_simp+

declare double_literals [code_unfold]

lemma floor_350_times_07: "\<lfloor>roundDouble (350 * roundDouble (7 / 10))\<rfloor> = 244"
  by code_simp

section \<open>The optimizer (src/normalizer/src/utils/firestoreOptimizer.ts)\<close>

record Config =
  FIRESTORE_BATCH_SIZE :: int
  FIRESTORE_IN_LIMIT :: nat
  MAX_PARALLEL_BATCHES :: nat
  QUERY_CHUNK_SIZE :: nat
  ADAPTIVE_BATCH_THRESHOLD :: rat
  CACHE_TTL_MS :: int
  MAX_CACHE_SIZE_MB :: int
  ERROR_THRESHOLD :: rat
  CIRCUIT_RESET_MS :: int

definition CONFIG :: Config where
  "CONFIG =
     \<lparr>FIRESTORE_BATCH_SIZE = 500, FIRESTORE_IN_LIMIT = 10, MAX_PARALLEL_BATCHES = 5,
      QUERY_CHUNK_SIZE = 10, ADAPTIVE_BATCH_THRESHOLD = roundDouble (8 / 10),
      CACHE_TTL_MS = 5 * 60 * 1000, MAX_CACHE_SIZE_MB = 100,
      ERROR_THRESHOLD = roundDouble (3 / 10), CIRCUIT_RESET_MS = 60 * 1000\<rparr>"

text \<open>A document reference is the document's id. Times are milliseconds.\<close>

type_synonym doc_ref = nat

record Metrics =
  totalProcessed :: nat
  totalErrors :: nat
  totalQueries :: nat
  totalWrites :: nat
  queryTimeMs :: int
  writeTimeMs :: int
  cacheHits :: nat
  cacheMisses :: nat
  startTime :: int

datatype CircuitState = CLOSED | OPEN | HALF_OPEN

text \<open>
  A JavaScript \<open>Map\<close> is an association list in insertion order with distinct keys:
  \<open>get\<close> is \<open>map_of\<close>, \<open>set\<close> is \<open>AList.update\<close> (in place, or appended), \<open>delete\<close>
  is \<open>AList.delete\<close>, \<open>size\<close> is the length.
\<close>

record CacheEntry =
  data :: "(string \<times> doc_ref) list"
  timestamp :: int
  sizeBytes :: int

record FirestoreOptimizer =
  cache :: "(string \<times> CacheEntry) list"
  metrics :: Metrics
  circuitState :: CircuitState
  circuitOpenTime :: int
  currentBatchSize :: int

text \<open>The constructor; \<open>now\<close> is \<open>Date.now()\<close>.\<close>

definition newOptimizer :: "int \<Rightarrow> FirestoreOptimizer" where
  "newOptimizer now =
     \<lparr>cache = [],
      metrics = \<lparr>totalProcessed = 0, totalErrors = 0, totalQueries = 0, totalWrites = 0,
                 queryTimeMs = 0, writeTimeMs = 0, cacheHits = 0, cacheMisses = 0,
                 startTime = now\<rparr>,
      circuitState = CLOSED,
      circuitOpenTime = 0,
      currentBatchSize = FIRESTORE_BATCH_SIZE CONFIG\<rparr>"

subsection \<open>Adaptive batch size\<close>

definition adaptBatchSize :: "nat \<Rightarrow> nat \<Rightarrow> FirestoreOptimizer \<Rightarrow> FirestoreOptimizer" where
  "adaptBatchSize errors processed opt =
     (let total = errors + processed in
      if total = 0 then opt
      else
        let errorRate = roundDouble (of_nat errors / of_nat total) in
        if ADAPTIVE_BATCH_THRESHOLD CONFIG < errorRate then
          opt\<lparr>currentBatchSize :=
                max 100 \<lfloor>roundDouble (of_int (currentBatchSize opt) * roundDouble (7 / 10))\<rfloor>\<rparr>
        else if errorRate < roundDouble (5 / 100) \<and>
                currentBatchSize opt < FIRESTORE_BATCH_SIZE CONFIG then
          opt\<lparr>currentBatchSize :=
                min (FIRESTORE_BATCH_SIZE CONFIG)
                  \<lfloor>roundDouble (of_int (currentBatchSize opt) * roundDouble (12 / 10))\<rfloor>\<rparr>
        else opt)"

lemma shrink_le_500:
  assumes "100 \<le> c" "c \<le> 500"
  shows "\<lfloor>roundDouble (of_int c * roundDouble (7 / 10))\<rfloor> \<le> (500::int)"
proof -
  let ?p = "of_int c * (3152519739159347 / 4503599627370496 :: rat)"
  have c: "(100::rat) \<le> of_int c" "of_int c \<le> (500::rat)"
    using assms by simp_all
  have p1: "1 \<le> ?p" and p2: "?p \<le> 350" using c by simp_all
  have "?p < 2 ^ 53" using p2 by simp
  with p1 have "\<bar>roundDouble ?p - ?p\<bar> \<le> 1 / 2" by (rule roundDouble_close)
  with p2 have "roundDouble ?p < 501" by linarith
  then have "\<lfloor>roundDouble ?p\<rfloor> < 501" by (simp add: floor_less_iff)
  then show ?thesis by (simp add: double_literals)
qed

lemma grow_ge_100:
  assumes "100 \<le> c" "c \<le> 500"
  shows "(100::int) \<le> \<lfloor>roundDouble (of_int c * roundDouble (12 / 10))\<rfloor>"
proof -
  let ?p = "of_int c * (5404319552844595 / 4503599627370496 :: rat)"
  have c: "(100::rat) \<le> of_int c" "of_int c \<le> (500::rat)"
    using assms by simp_all
  have p1: "101 \<le> ?p" and p2: "?p \<le> 1000" using c by simp_all
  have "?p < 2 ^ 53" using p2 by simp
  moreover have "1 \<le> ?p" using p1 by linarith
  ultimately have "\<bar>roundDouble ?p - ?p\<bar> \<le> 1 / 2" by (intro roundDouble_close)
  with p1 have "100 \<le> roundDouble ?p" by linarith
  then have "100 \<le> \<lfloor>roundDouble ?p\<rfloor>" by (simp add: le_floor_iff)
  then show ?thesis by (simp only: double_literals)
qed

lemma adaptBatchSize_keeps_range:
  assumes "100 \<le> currentBatchSize opt" "currentBatchSize opt \<le> 500"
  shows "100 \<le> currentBatchSize (adaptBatchSize errors processed opt) \<and>
         currentBatchSize (adaptBatchSize errors processed opt) \<le> 500"
  using assms shrink_le_500 [OF assms] grow_ge_100 [OF assms]
  by (simp add: adaptBatchSize_def Let_def CONFIG_def)

lemma adaptBatchSize_calls_keep_range:
  "100 \<le> currentBatchSize opt \<Longrightarrow> currentBatchSize opt \<le> 500 \<Longrightarrow>
   100 \<le> currentBatchSize (foldl (\<lambda>st (errors, processed). adaptBatchSize errors processed st) opt calls) \<and>
   currentBatchSize (foldl (\<lambda>st (errors, processed). adaptBatchSize errors processed st) opt calls) \<le> 500"
proof (induction calls arbitrary: opt)
  case Nil
  then show ?case by simp
next
  case (Cons call calls)
  obtain errors processed where call: "call = (errors, processed)" by (cases call)
  from Cons.prems have "100 \<le> currentBatchSize (adaptBatchSize errors processed opt) \<and>
      currentBatchSize (adaptBatchSize errors processed opt) \<le> 500"
    by (rule adaptBatchSize_keeps_range)
  then show ?case using Cons.IH [of "adaptBatchSize errors processed opt"] call by simp
qed

text \<open>
  Claim C8: the batch size starts at 500 and, after any sequence of \<open>adaptBatchSize\<close>
  calls with any error and processed counts, lies between 100 and 500. Every prefix of a
  sequence is a sequence, so this bounds the value after each call.
\<close>

theorem currentBatchSize_within_100_500:
  "currentBatchSize (newOptimizer now) = 500 \<and>
   100 \<le> currentBatchSize
           (foldl (\<lambda>st (errors, processed). adaptBatchSize errors processed st)
              (newOptimizer now) calls) \<and>
   currentBatchSize
     (foldl (\<lambda>st (errors, processed). adaptBatchSize errors processed st)
        (newOptimizer now) calls) \<le> 500"
proof -
  have start: "currentBatchSize (newOptimizer now) = 500"
    by (simp add: newOptimizer_def CONFIG_def)
  then show ?thesis
    using adaptBatchSize_calls_keep_range [of "newOptimizer now" calls] by simp
qed

subsection \<open>Lookup cache\<close>

definition getFromCache ::
  "string \<Rightarrow> int \<Rightarrow> FirestoreOptimizer \<Rightarrow> (string \<times> doc_ref) list option \<times> FirestoreOptimizer" where
  "getFromCache key now opt =
     (case map_of (cache opt) key of
        None \<Rightarrow> (None, opt)
      | Some entry \<Rightarrow>
          if CACHE_TTL_MS CONFIG < now - timestamp entry
          then (None, opt\<lparr>cache := AList.delete key (cache opt)\<rparr>)
          else (Some (data entry), opt))"

text \<open>
  The scan of \<open>evictOldestCache\<close>: \<open>oldestTime\<close> starts at \<open>Infinity\<close> (here \<open>None\<close>),
  and a strictly smaller timestamp replaces the candidate.
\<close>

definition oldestKey :: "(string \<times> CacheEntry) list \<Rightarrow> string option" where
  "oldestKey entries =
     fst (foldl
            (\<lambda>(oldest, oldestTime) (key, entry).
               if (case oldestTime of None \<Rightarrow> True | Some t \<Rightarrow> timestamp entry < t)
               then (Some key, Some (timestamp entry))
               else (oldest, oldestTime))
            (None, None) entries)"

definition evictOldestCache :: "FirestoreOptimizer \<Rightarrow> FirestoreOptimizer" where
  "evictOldestCache opt =
     (case oldestKey (cache opt) of
        None \<Rightarrow> opt
      | Some key \<Rightarrow> if key = [] then opt else opt\<lparr>cache := AList.delete key (cache opt)\<rparr>)"

definition cachedBytes :: "FirestoreOptimizer \<Rightarrow> int" where
  "cachedBytes opt = sum_list (map (\<lambda>(key, entry). sizeBytes entry) (cache opt))"

definition addToCache ::
  "string \<Rightarrow> (string \<times> doc_ref) list \<Rightarrow> int \<Rightarrow> FirestoreOptimizer \<Rightarrow> FirestoreOptimizer" where
  "addToCache key d now opt =
     (let size = int (length d) * 200;
          totalSize = cachedBytes opt;
          opt1 = (if MAX_CACHE_SIZE_MB CONFIG * 1024 * 1024 < totalSize + size
                  then evictOldestCache opt else opt)
      in opt1\<lparr>cache :=
                AList.update key \<lparr>data = d, timestamp = now, sizeBytes = size\<rparr> (cache opt1)\<rparr>)"

text \<open>
  Claim C7 (an entry aged exactly \<open>CACHE_TTL_MS\<close> is a miss) fails on the code: the
  test is \<open>Date.now() - entry.timestamp > CACHE_TTL_MS\<close>, so at age 300000 the entry is
  still returned.
\<close>

theorem getFromCache_at_exactly_ttl_is_hit:
  "(301000 :: int) - 1000 = CACHE_TTL_MS CONFIG \<and>
   fst (getFromCache ''org:acme'' 301000
          (addToCache ''org:acme'' [(''alice@x.com'', 7)] 1000 (newOptimizer 0))) =
     Some [(''alice@x.com'', 7)]"
  by (simp add: getFromCache_def addToCache_def cachedBytes_def newOptimizer_def CONFIG_def)

text \<open>
  Claim C7 as amended: an entry is returned while its age is at most \<open>CACHE_TTL_MS\<close>
  (300000 ms), the boundary included; once its age exceeds \<open>CACHE_TTL_MS\<close> the call
  returns null and deletes the entry.
\<close>

theorem getFromCache_ttl:
  "map_of (cache opt) key = Some entry \<Longrightarrow>
   (now - timestamp entry \<le> 300000 \<longrightarrow> getFromCache key now opt = (Some (data entry), opt)) \<and>
   (300000 < now - timestamp entry \<longrightarrow>
      fst (getFromCache key now opt) = None \<and>
      map_of (cache (snd (getFromCache key now opt))) key = None)"
  by (auto simp: getFromCache_def CONFIG_def delete_conv')

theorem getFromCache_ttl_witness:
  "map_of (cache (addToCache ''org:acme'' [(''alice@x.com'', 7)] 1000 (newOptimizer 0))) ''org:acme'' =
     Some \<lparr>data = [(''alice@x.com'', 7)], timestamp = 1000, sizeBytes = 200\<rparr> \<and>
   fst (getFromCache ''org:acme'' 301000
          (addToCache ''org:acme'' [(''alice@x.com'', 7)] 1000 (newOptimizer 0))) =
     Some [(''alice@x.com'', 7)] \<and>
   fst (getFromCache ''org:acme'' 301001
          (addToCache ''org:acme'' [(''alice@x.com'', 7)] 1000 (newOptimizer 0))) = None"
proof -
  let ?opt = "addToCache ''org:acme'' [(''alice@x.com'', 7)] 1000 (newOptimizer 0)"
  let ?entry = "\<lparr>data = [(''alice@x.com'', 7 :: nat)], timestamp = 1000, sizeBytes = 200\<rparr>"
  have h: "map_of (cache ?opt) ''org:acme'' = Some ?entry"
    by (simp add: addToCache_def cachedBytes_def newOptimizer_def CONFIG_def)
  show ?thesis
    using h getFromCache_ttl [OF h, of 301000] getFromCache_ttl [OF h, of 301001] by simp
qed

text \<open>
  A directory of \<open>n\<close> employees with distinct addresses, as \<open>bulkQueryEmployees\<close> returns
  it for a large organization.
\<close>

definition directory :: "nat \<Rightarrow> (string \<times> doc_ref) list" where
  "directory n = map (\<lambda>k. (replicate k CHR ''a'' @ ''@x.com'', k)) [0..<n]"

lemma length_directory: "length (directory n) = n"
  by (simp add: directory_def)

lemma distinct_directory: "distinct (map fst (directory n))"
proof -
  have "inj_on (\<lambda>k. replicate k CHR ''a'' @ ''@x.com'') (set [0..<n])"
  proof (rule inj_onI)
    fix x y
    assume "replicate x CHR ''a'' @ ''@x.com'' = replicate y CHR ''a'' @ ''@x.com''"
    then have "length (replicate x CHR ''a'' @ ''@x.com'') = length (replicate y CHR ''a'' @ ''@x.com'')"
      by simp
    then show "x = y" by simp
  qed
  then show ?thesis by (simp add: directory_def comp_def distinct_map)
qed

text \<open>
  Claim C6 (the cache never holds more than \<open>MAX_CACHE_SIZE_MB\<close>) fails on the code:
  \<open>addToCache\<close> evicts one entry, the oldest, and inserts without looking at the total
  again. Four insertions into an empty cache - a small entry, then three directories of
  200000 employees (40000000 estimated bytes each) - leave 120000000 bytes cached,
  above the limit of 104857600: the fourth call evicts only the small entry.
\<close>

theorem addToCache_exceeds_limit:
  "cachedBytes
     (addToCache ''org:d'' (directory 200000) 4000
        (addToCache ''org:c'' (directory 200000) 3000
           (addToCache ''org:b'' (directory 200000) 2000
              (addToCache ''org:a'' (directory 1) 1000 (newOptimizer 0))))) = 120000000 \<and>
   map fst
     (cache
        (addToCache ''org:d'' (directory 200000) 4000
           (addToCache ''org:c'' (directory 200000) 3000
              (addToCache ''org:b'' (directory 200000) 2000
                 (addToCache ''org:a'' (directory 1) 1000 (newOptimizer 0)))))) =
     [''org:b'', ''org:c'', ''org:d''] \<and>
   MAX_CACHE_SIZE_MB CONFIG * 1024 * 1024 = 104857600 \<and>
   MAX_CACHE_SIZE_MB CONFIG * 1024 * 1024 <
     cachedBytes
       (addToCache ''org:d'' (directory 200000) 4000
          (addToCache ''org:c'' (directory 200000) 3000
             (addToCache ''org:b'' (directory 200000) 2000
                (addToCache ''org:a'' (directory 1) 1000 (newOptimizer 0)))))"
  by (simp add: addToCache_def cachedBytes_def evictOldestCache_def oldestKey_def
      newOptimizer_def CONFIG_def length_directory Let_def)

section \<open>The document store\<close>

text \<open>
  The documents under one organization: the organization document (if it exists) and
  the employees collection, each document with its id, in the order queries return
  them. Fields follow \<open>EmployeeData\<close> and \<open>OrgData\<close> (src/normalizer/src/firestore.ts);
  \<open>lastEventId\<close> is optional, and the organization's epoch fields may be missing.
\<close>

record Employee =
  email :: string
  statusInOrg :: js_value
  presentInLatest :: bool
  lastSeenEpoch :: int
  updatedAt :: int
  source :: string
  lastEventId :: "string option"

record Organization =
  currentEpoch :: "int option"
  lastFinalizedEpoch :: "int option"
  name :: "string option"
  orgUpdatedAt :: int

record OrgStore =
  orgDoc :: "Organization option"
  employees :: "(doc_ref \<times> Employee) list"

text \<open>\<open>collection.doc()\<close>: an id no document of the collection has.\<close>

definition autoId :: "(doc_ref \<times> Employee) list \<Rightarrow> doc_ref" where
  "autoId emps = foldl (\<lambda>m (ref, e). max m (Suc ref)) 0 emps"

text \<open>
  \<open>ref.set(data, {merge: true})\<close> writes the supplied fields and keeps the others: of an
  update only \<open>lastEventId\<close> can be absent. On a missing document it creates it.
\<close>

definition mergeFields :: "Employee \<Rightarrow> Employee \<Rightarrow> Employee" where
  "mergeFields old upd =
     upd\<lparr>lastEventId := (case lastEventId upd of None \<Rightarrow> lastEventId old | Some i \<Rightarrow> Some i)\<rparr>"

definition setMerge :: "doc_ref \<Rightarrow> Employee \<Rightarrow> (doc_ref \<times> Employee) list \<Rightarrow> (doc_ref \<times> Employee) list" where
  "setMerge ref upd emps =
     (if ref \<in> fst ` set emps
      then map (\<lambda>(r, e). if r = ref then (r, mergeFields e upd) else (r, e)) emps
      else emps @ [(ref, upd)])"

definition setNew :: "Employee \<Rightarrow> (doc_ref \<times> Employee) list \<Rightarrow> (doc_ref \<times> Employee) list" where
  "setNew upd emps = emps @ [(autoId emps, upd)]"

text \<open>\<open>where('email', '==', email).limit(1)\<close>: the first document with that address.\<close>

definition findByEmail :: "string \<Rightarrow> (doc_ref \<times> Employee) list \<Rightarrow> (doc_ref \<times> Employee) option" where
  "findByEmail e emps = find (\<lambda>(ref, d). email d = e) emps"

text \<open>\<open>ref.update(fields)\<close> on a document of the collection.\<close>

definition updateDoc :: "doc_ref \<Rightarrow> (Employee \<Rightarrow> Employee) \<Rightarrow> (doc_ref \<times> Employee) list \<Rightarrow> (doc_ref \<times> Employee) list" where
  "updateDoc ref f emps = map (\<lambda>(r, e). if r = ref then (r, f e) else (r, e)) emps"

section \<open>processUpserts\<close>

text \<open>
  \<open>eventId\<close> is a string or a number; \<open>String(eventId)\<close> prints an integer in decimal.
  \<open>EventNum\<close> stands for the integers of magnitude below ten to the power 21: from there on
  JavaScript prints a number in exponent form, which \<open>decimal\<close> does not.
\<close>

datatype event_id = EventStr string | EventNum int

fun decimal :: "nat \<Rightarrow> string" where
  "decimal n = (if n < 10 then [char_of (48 + n)] else decimal (n div 10) @ [char_of (48 + n mod 10)])"

definition lastEventIdOf :: "event_id option \<Rightarrow> string option" where
  "lastEventIdOf ev =
     (case ev of
        None \<Rightarrow> None
      | Some (EventStr s) \<Rightarrow> if s = [] then None else Some s
      | Some (EventNum n) \<Rightarrow>
          if n = 0 then None
          else Some (if n < 0 then CHR ''-'' # decimal (nat (- n)) else decimal (nat n)))"

record UpsertMessage =
  msgEmail :: "string option"
  msgStatusInOrg :: "js_value option"
  msgEventId :: "event_id option"

record PreparedItem =
  itemEmail :: string
  itemData :: Employee
  itemRef :: "doc_ref option"
  isNew :: bool

record UpsertResult =
  processed :: nat
  skipped :: nat
  errors :: nat

text \<open>
  What the store does to an invocation: whether the \<open>i\<close>-th chunk query and the
  \<open>i\<close>-th batch commit fail.
\<close>

record StoreFaults =
  queryFails :: "nat \<Rightarrow> bool"
  commitFails :: "nat \<Rightarrow> bool"

text \<open>
  \<open>for (i = 0; i < xs.length; i += n) out.push(xs.slice(i, i + n))\<close>. With \<open>n = 0\<close> the
  source loop does not end; callers below rule that case out before they split.
\<close>

function chunks :: "nat \<Rightarrow> 'a list \<Rightarrow> 'a list list" where
  "chunks n xs = (if n = 0 \<or> xs = [] then [] else take n xs # chunks n (drop n xs))"
  by pat_completeness auto
termination
  by (relation "measure (\<lambda>(n, xs). length xs)") auto

declare chunks.simps [simp del]

text \<open>\<open>message.email?.toLowerCase().trim()\<close>, with \<open>None\<close> when the result is falsy.\<close>

definition messageEmail :: "UpsertMessage \<Rightarrow> string option" where
  "messageEmail m =
     (case msgEmail m of
        None \<Rightarrow> None
      | Some e \<Rightarrow> let n = trim (toLowerCase e) in if n = [] then None else Some n)"

text \<open>
  \<open>deduplicateEmails\<close> walks the messages from the last to the first; \<open>emailMap\<close> holds
  the keys of the \<open>Map\<close> in insertion order.
\<close>

definition deduplicateStep :: "string list \<Rightarrow> UpsertMessage \<Rightarrow> string list" where
  "deduplicateStep emailMap m =
     (case messageEmail m of
        None \<Rightarrow> emailMap
      | Some e \<Rightarrow> if e \<in> set emailMap then emailMap else emailMap @ [e])"

definition deduplicateEmails :: "UpsertMessage list \<Rightarrow> string list" where
  "deduplicateEmails messages = foldl deduplicateStep [] (rev messages)"

text \<open>\<open>message.statusInOrg || 'active'\<close>.\<close>

definition statusOrActive :: "js_value option \<Rightarrow> js_value" where
  "statusOrActive v =
     (case v of
        None \<Rightarrow> JStr ''active''
      | Some (JStr s) \<Rightarrow> if s = [] then JStr ''active'' else JStr s
      | Some (JInherited m) \<Rightarrow> JInherited m)"

definition employeeDataOf :: "string \<Rightarrow> UpsertMessage \<Rightarrow> int \<Rightarrow> int \<Rightarrow> Employee" where
  "employeeDataOf e message epochNumber now =
     \<lparr>email = e, statusInOrg = statusOrActive (msgStatusInOrg message), presentInLatest = True,
      lastSeenEpoch = epochNumber, updatedAt = now, source = ''kafka:upsert'',
      lastEventId = lastEventIdOf (msgEventId message)\<rparr>"

definition preparedItem ::
  "(string \<times> doc_ref) list \<Rightarrow> int \<Rightarrow> int \<Rightarrow> string \<Rightarrow> UpsertMessage \<Rightarrow> PreparedItem" where
  "preparedItem existingEmployees epochNumber now e message =
     \<lparr>itemEmail = e, itemData = employeeDataOf e message epochNumber now,
      itemRef = map_of existingEmployees e, isNew = (map_of existingEmployees e = None)\<rparr>"

text \<open>One turn of the loop of \<open>prepareEmployeeData\<close>, which also runs last to first.\<close>

definition prepareStep ::
  "(string \<times> doc_ref) list \<Rightarrow> int \<Rightarrow> int \<Rightarrow> PreparedItem list \<times> string list \<Rightarrow> UpsertMessage \<Rightarrow>
   PreparedItem list \<times> string list" where
  "prepareStep existingEmployees epochNumber now st message =
     (case st of (dataList, processedEmails) \<Rightarrow>
      case messageEmail message of
        None \<Rightarrow> (dataList, processedEmails)
      | Some e \<Rightarrow>
          if e \<in> set processedEmails then (dataList, processedEmails)
          else (dataList @ [preparedItem existingEmployees epochNumber now e message],
                processedEmails @ [e]))"

definition prepareEmployeeData ::
  "UpsertMessage list \<Rightarrow> (string \<times> doc_ref) list \<Rightarrow> int \<Rightarrow> int \<Rightarrow> PreparedItem list" where
  "prepareEmployeeData messages existingEmployees epochNumber now =
     fst (foldl (prepareStep existingEmployees epochNumber now) ([], []) (rev messages))"

text \<open>
  One \<open>where('email', 'in', chunk)\<close> query: the documents found, keyed by their
  \<open>email\<close> field (a later document with the same address replaces an earlier one).
\<close>

definition queryChunk :: "(doc_ref \<times> Employee) list \<Rightarrow> string list \<Rightarrow> (string \<times> doc_ref) list" where
  "queryChunk emps chunk =
     foldl (\<lambda>chunkMap (ref, d). if email d = [] then chunkMap else AList.update (email d) ref chunkMap)
       [] (filter (\<lambda>(ref, d). email d \<in> set chunk) emps)"

text \<open>
  The chunk queries run in waves of \<open>MAX_PARALLEL_BATCHES\<close>; their results are merged in
  chunk order, which the waves keep. A failed query counts an error and contributes an
  empty map.
\<close>

definition bulkQueryEmployees ::
  "(nat \<Rightarrow> bool) \<Rightarrow> (doc_ref \<times> Employee) list \<Rightarrow> string list \<Rightarrow> FirestoreOptimizer \<Rightarrow>
   (string \<times> doc_ref) list \<times> FirestoreOptimizer" where
  "bulkQueryEmployees fails emps emails opt =
     (let cs = enumerate 0 (chunks (QUERY_CHUNK_SIZE CONFIG) emails);
          results = map (\<lambda>(i, chunk). if fails i then [] else queryChunk emps chunk) cs;
          failed = length (filter (\<lambda>(i, chunk). fails i) cs);
          m = metrics opt
      in (foldl (\<lambda>emailMap result. foldl (\<lambda>acc (e, ref). AList.update e ref acc) emailMap result)
            [] results,
          opt\<lparr>metrics := m\<lparr>totalQueries := totalQueries m + (length cs - failed),
                             totalErrors := totalErrors m + failed\<rparr>\<rparr>))"

definition loadExistingEmployees ::
  "(nat \<Rightarrow> bool) \<Rightarrow> string \<Rightarrow> (doc_ref \<times> Employee) list \<Rightarrow> string list \<Rightarrow> int \<Rightarrow>
   FirestoreOptimizer \<Rightarrow> (string \<times> doc_ref) list \<times> FirestoreOptimizer" where
  "loadExistingEmployees fails orgId emps emails now opt =
     (let cacheKey = ''org:'' @ orgId in
      case getFromCache cacheKey now opt of
        (Some cached, opt1) \<Rightarrow>
          (concat (map (\<lambda>e. case map_of cached e of None \<Rightarrow> [] | Some ref \<Rightarrow> [(e, ref)]) emails),
           opt1\<lparr>metrics := (metrics opt1)\<lparr>cacheHits := cacheHits (metrics opt1) + 1\<rparr>\<rparr>)
      | (None, opt1) \<Rightarrow>
          let opt2 = opt1\<lparr>metrics := (metrics opt1)\<lparr>cacheMisses := cacheMisses (metrics opt1) + 1\<rparr>\<rparr>;
              (employeeMap, opt3) = bulkQueryEmployees fails emps emails opt2
          in (employeeMap, addToCache cacheKey employeeMap now opt3))"

text \<open>
  A batch commit is atomic: existing documents are merged, new ones created under a
  fresh id.
\<close>

definition commitBatch :: "PreparedItem list \<Rightarrow> (doc_ref \<times> Employee) list \<Rightarrow> (doc_ref \<times> Employee) list" where
  "commitBatch batch emps =
     foldl
       (\<lambda>acc item.
          case itemRef item of
            Some ref \<Rightarrow> setMerge ref (itemData item) acc
          | None \<Rightarrow> setNew (itemData item) acc)
       emps batch"

text \<open>
  The batches are split once, with the batch size at entry, and committed in waves of
  \<open>MAX_PARALLEL_BATCHES\<close>; after each wave the batch size adapts to the counts so far.
  A rejected commit counts one error and writes nothing.
\<close>

definition writeWave ::
  "(nat \<Rightarrow> bool) \<Rightarrow> (nat \<times> PreparedItem list) list \<Rightarrow> nat \<times> nat \<times> (doc_ref \<times> Employee) list \<Rightarrow>
   nat \<times> nat \<times> (doc_ref \<times> Employee) list" where
  "writeWave fails wave st =
     foldl
       (\<lambda>(cnt, errs, emps) (i, batch).
          if fails i then (cnt, errs + 1, emps)
          else (cnt + length batch, errs, commitBatch batch emps))
       st wave"

definition writeBatches ::
  "(nat \<Rightarrow> bool) \<Rightarrow> PreparedItem list \<Rightarrow> FirestoreOptimizer \<Rightarrow> (doc_ref \<times> Employee) list \<Rightarrow>
   UpsertResult \<times> FirestoreOptimizer \<times> (doc_ref \<times> Employee) list" where
  "writeBatches fails employeeDataList opt emps =
     (let batches = chunks (nat (currentBatchSize opt)) employeeDataList;
          waves = chunks (MAX_PARALLEL_BATCHES CONFIG) (enumerate 0 batches);
          (cnt, errs, opt1, emps1) =
            foldl
              (\<lambda>(cnt, errs, ob, es) wave.
                 case writeWave fails wave (cnt, errs, es) of
                   (cnt1, errs1, es1) \<Rightarrow> (cnt1, errs1, adaptBatchSize errs1 cnt1 ob, es1))
              (0, 0, opt, emps) waves
      in (\<lparr>processed = cnt, skipped = 0, errors = errs\<rparr>,
          opt1\<lparr>metrics := (metrics opt1)\<lparr>totalWrites := totalWrites (metrics opt1) + length batches\<rparr>\<rparr>,
          emps1))"

subsection \<open>Circuit breaker\<close>

definition canProceed :: "int \<Rightarrow> FirestoreOptimizer \<Rightarrow> bool \<times> FirestoreOptimizer" where
  "canProceed now opt =
     (if circuitState opt = OPEN then
        if CIRCUIT_RESET_MS CONFIG < now - circuitOpenTime opt
        then (True, opt\<lparr>circuitState := HALF_OPEN\<rparr>)
        else (False, opt)
      else (True, opt))"

definition errorRate :: "Metrics \<Rightarrow> rat" where
  "errorRate m = roundDouble (of_nat (totalErrors m) / of_nat (totalProcessed m + totalErrors m))"

definition updateMetrics :: "UpsertResult \<Rightarrow> int \<Rightarrow> FirestoreOptimizer \<Rightarrow> FirestoreOptimizer" where
  "updateMetrics result now opt =
     (let m = (metrics opt)\<lparr>totalProcessed := totalProcessed (metrics opt) + processed result,
                            totalErrors := totalErrors (metrics opt) + errors result\<rparr>;
          opt1 = opt\<lparr>metrics := m\<rparr>
      in if totalProcessed m + totalErrors m = 0 then opt1
         else if ERROR_THRESHOLD CONFIG < errorRate m then
           (if circuitState opt1 \<noteq> OPEN
            then opt1\<lparr>circuitState := OPEN, circuitOpenTime := now\<rparr>
            else opt1)
         else if circuitState opt1 = HALF_OPEN then opt1\<lparr>circuitState := CLOSED\<rparr>
         else opt1)"

text \<open>
  \<open>processUpserts\<close>. \<open>now\<close> is the clock at entry (also the cache and document
  timestamps), \<open>finished\<close> the clock when the metrics are updated. Measured durations
  are not modelled.
\<close>

definition processUpserts ::
  "StoreFaults \<Rightarrow> string \<Rightarrow> UpsertMessage list \<Rightarrow> int \<Rightarrow> int \<Rightarrow> int \<Rightarrow>
   FirestoreOptimizer \<times> OrgStore \<Rightarrow> (js_error + UpsertResult) \<times> FirestoreOptimizer \<times> OrgStore" where
  "processUpserts faults orgId messages epochNumber now finished st =
     (case st of (opt, store) \<Rightarrow>
      case canProceed now opt of
        (False, opt0) \<Rightarrow> (Inl CircuitOpen, opt0, store)
      | (True, opt0) \<Rightarrow>
          let uniqueEmails = deduplicateEmails messages;
              (existingEmployees, opt1) =
                loadExistingEmployees (queryFails faults) orgId (employees store) uniqueEmails now opt0;
              employeeDataList = prepareEmployeeData messages existingEmployees epochNumber now
          in if currentBatchSize opt1 \<le> 0 \<and> employeeDataList \<noteq> []
             then (Inl NonTermination, opt1, store)
             else
               (case writeBatches (commitFails faults) employeeDataList opt1 (employees store) of
                  (result, opt2, emps) \<Rightarrow>
                    (Inr result, updateMetrics result finished opt2, store\<lparr>employees := emps\<rparr>)))"

subsection \<open>The breaker's state through an invocation\<close>

lemma getFromCache_circuit:
  "circuitState (snd (getFromCache key now opt)) = circuitState opt"
  "circuitOpenTime (snd (getFromCache key now opt)) = circuitOpenTime opt"
  "currentBatchSize (snd (getFromCache key now opt)) = currentBatchSize opt"
  by (simp_all add: getFromCache_def split: option.splits)

lemma addToCache_circuit:
  "circuitState (addToCache key d now opt) = circuitState opt"
  "circuitOpenTime (addToCache key d now opt) = circuitOpenTime opt"
  "currentBatchSize (addToCache key d now opt) = currentBatchSize opt"
  by (simp_all add: addToCache_def evictOldestCache_def Let_def split: option.splits)

lemma bulkQueryEmployees_circuit:
  "circuitState (snd (bulkQueryEmployees fails emps emails opt)) = circuitState opt"
  "circuitOpenTime (snd (bulkQueryEmployees fails emps emails opt)) = circuitOpenTime opt"
  "currentBatchSize (snd (bulkQueryEmployees fails emps emails opt)) = currentBatchSize opt"
  by (simp_all add: bulkQueryEmployees_def Let_def)

lemma loadExistingEmployees_circuit:
  "circuitState (snd (loadExistingEmployees fails orgId emps emails now opt)) = circuitState opt"
  "circuitOpenTime (snd (loadExistingEmployees fails orgId emps emails now opt)) = circuitOpenTime opt"
  "currentBatchSize (snd (loadExistingEmployees fails orgId emps emails now opt)) = currentBatchSize opt"
  using getFromCache_circuit [of "''org:'' @ orgId" now opt]
  by (auto simp: loadExistingEmployees_def Let_def addToCache_circuit bulkQueryEmployees_circuit
      split: option.splits prod.splits
      dest!: arg_cong [where f = snd])

lemma adaptBatchSize_circuit:
  "circuitState (adaptBatchSize e p opt) = circuitState opt"
  "circuitOpenTime (adaptBatchSize e p opt) = circuitOpenTime opt"
  by (simp_all add: adaptBatchSize_def Let_def)

lemma writeBatches_loop_circuit:
  "foldl
     (\<lambda>(cnt, errs, ob, es) wave.
        case writeWave fails wave (cnt, errs, es) of
          (cnt1, errs1, es1) \<Rightarrow> (cnt1, errs1, adaptBatchSize errs1 cnt1 ob, es1))
     (c, e, opt, emps) waves = (c', e', opt', emps') \<Longrightarrow>
   circuitState opt' = circuitState opt \<and> circuitOpenTime opt' = circuitOpenTime opt"
proof (induction waves arbitrary: c e opt emps)
  case Nil
  then show ?case by simp
next
  case (Cons wave waves)
  obtain c1 e1 es1 where w: "writeWave fails wave (c, e, emps) = (c1, e1, es1)"
    by (cases "writeWave fails wave (c, e, emps)")
  with Cons.prems Cons.IH [of c1 e1 "adaptBatchSize e1 c1 opt" es1]
  show ?case by (simp add: adaptBatchSize_circuit)
qed

lemma writeBatches_circuit:
  "writeBatches fails dataList opt emps = (r, opt', emps') \<Longrightarrow>
   circuitState opt' = circuitState opt \<and> circuitOpenTime opt' = circuitOpenTime opt"
  by (auto simp: writeBatches_def Let_def split: prod.splits dest!: writeBatches_loop_circuit)

lemma canProceed_not_open:
  "canProceed now opt = (True, opt0) \<Longrightarrow> circuitState opt0 \<noteq> OPEN"
  by (auto simp: canProceed_def split: if_splits)

lemma processUpserts_admitted:
  assumes "processUpserts faults orgId messages epochNumber now finished (opt, store) = (Inr r, opt', store')"
  shows "\<exists>opt2. circuitState opt2 \<noteq> OPEN \<and> opt' = updateMetrics r finished opt2"
proof -
  obtain ok opt0 where cp: "canProceed now opt = (ok, opt0)" by (cases "canProceed now opt")
  with assms have ok: "ok" by (cases ok) (auto simp: processUpserts_def)
  with cp have s0: "circuitState opt0 \<noteq> OPEN" by (auto dest: canProceed_not_open)
  obtain ex opt1 where le:
    "loadExistingEmployees (queryFails faults) orgId (employees store) (deduplicateEmails messages) now opt0 = (ex, opt1)"
    by (cases "loadExistingEmployees (queryFails faults) orgId (employees store) (deduplicateEmails messages) now opt0")
  then have s1: "circuitState opt1 = circuitState opt0"
    using loadExistingEmployees_circuit(1) [of "queryFails faults" orgId "employees store" "deduplicateEmails messages" now opt0]
    by simp
  obtain r2 opt2 emps where wb:
    "writeBatches (commitFails faults) (prepareEmployeeData messages ex epochNumber now) opt1 (employees store) = (r2, opt2, emps)"
    by (cases "writeBatches (commitFails faults) (prepareEmployeeData messages ex epochNumber now) opt1 (employees store)")
  then have s2: "circuitState opt2 = circuitState opt1" by (auto dest: writeBatches_circuit)
  from assms cp ok le wb have "r = r2 \<and> opt' = updateMetrics r2 finished opt2"
    by (auto simp: processUpserts_def Let_def split: if_splits)
  with s0 s1 s2 show ?thesis by (intro exI [of _ opt2]) simp
qed

lemma metrics_updateMetrics:
  "metrics (updateMetrics r finished opt) =
     (metrics opt)\<lparr>totalProcessed := totalProcessed (metrics opt) + processed r,
                    totalErrors := totalErrors (metrics opt) + errors r\<rparr>"
  by (simp add: updateMetrics_def Let_def)

lemma updateMetrics_from_not_open:
  assumes "circuitState opt \<noteq> OPEN"
    and "totalProcessed (metrics (updateMetrics r finished opt)) + totalErrors (metrics (updateMetrics r finished opt)) \<noteq> 0"
  shows "(ERROR_THRESHOLD CONFIG < errorRate (metrics (updateMetrics r finished opt)) \<longrightarrow>
            circuitState (updateMetrics r finished opt) = OPEN \<and>
            circuitOpenTime (updateMetrics r finished opt) = finished) \<and>
         (\<not> ERROR_THRESHOLD CONFIG < errorRate (metrics (updateMetrics r finished opt)) \<longrightarrow>
            circuitState (updateMetrics r finished opt) = CLOSED)"
proof -
  define m where "m = (metrics opt)\<lparr>totalProcessed := totalProcessed (metrics opt) + processed r,
                    totalErrors := totalErrors (metrics opt) + errors r\<rparr>"
  have m: "metrics (updateMetrics r finished opt) = m"
    by (simp add: metrics_updateMetrics m_def)
  from assms(2) have total: "totalProcessed m + totalErrors m \<noteq> 0" unfolding m .
  have u: "updateMetrics r finished opt =
      (if ERROR_THRESHOLD CONFIG < errorRate m
       then opt\<lparr>metrics := m, circuitState := OPEN, circuitOpenTime := finished\<rparr>
       else if circuitState opt = HALF_OPEN then opt\<lparr>metrics := m, circuitState := CLOSED\<rparr>
       else opt\<lparr>metrics := m\<rparr>)"
    using total assms(1) unfolding updateMetrics_def Let_def m_def [symmetric] by auto
  show ?thesis
    unfolding m using assms(1) by (cases "circuitState opt") (simp_all add: u)
qed

text \<open>A store that accepts everything, one that rejects every commit, and no documents.\<close>

definition healthy :: StoreFaults where
  "healthy = \<lparr>queryFails = (\<lambda>i. False), commitFails = (\<lambda>i. False)\<rparr>"

definition rejectingCommits :: StoreFaults where
  "rejectingCommits = \<lparr>queryFails = (\<lambda>i. False), commitFails = (\<lambda>i. True)\<rparr>"

definition emptyOrgStore :: OrgStore where
  "emptyOrgStore = \<lparr>orgDoc = None, employees = []\<rparr>"

definition upsert :: "string \<Rightarrow> string \<Rightarrow> UpsertMessage" where
  "upsert e s = \<lparr>msgEmail = Some e, msgStatusInOrg = Some (JStr s), msgEventId = None\<rparr>"

text \<open>
  The optimizer and store after one invocation at time 1000 whose only commit the store
  rejected: one error, nothing processed, the circuit opened at 1001.
\<close>

definition tripped :: "FirestoreOptimizer \<times> OrgStore" where
  "tripped =
     snd (processUpserts rejectingCommits ''acme'' [upsert ''bob@x.com'' ''active''] 1 1000 1001
            (newOptimizer 0, emptyOrgStore))"


lemma tripped_value [code]:
  "tripped =
     (\<lparr>cache = [(''org:acme'', \<lparr>data = [], timestamp = 1000, sizeBytes = 0\<rparr>)],
       metrics = \<lparr>totalProcessed = 0, totalErrors = 1, totalQueries = 1, totalWrites = 1,
                  queryTimeMs = 0, writeTimeMs = 0, cacheHits = 0, cacheMisses = 1,
                  startTime = 0\<rparr>,
       circuitState = OPEN, circuitOpenTime = 1001, currentBatchSize = 350\<rparr>,
      \<lparr>orgDoc = None, employees = []\<rparr>)"
  unfolding tripped_def by code_simp

text \<open>
  Claim C4 fails on the code where it says that a successful invocation in
  \<open>HALF_OPEN\<close> closes the circuit. After the reset window (70000 - 1001 > 60000) the
  next invocation is admitted in \<open>HALF_OPEN\<close>, the healthy store commits its batch
  (processed 1, errors 0), and the circuit is \<open>OPEN\<close> again: the rate compared with
  \<open>ERROR_THRESHOLD\<close> is the cumulative one, here 1 error in 2.
\<close>

theorem halfOpen_success_reopens_circuit:
  "circuitState (fst tripped) = OPEN \<and>
   fst (canProceed 70000 (fst tripped)) \<and>
   circuitState (snd (canProceed 70000 (fst tripped))) = HALF_OPEN \<and>
   fst (processUpserts healthy ''acme'' [upsert ''bob@x.com'' ''active''] 2 70000 70001 tripped) =
     Inr \<lparr>processed = 1, skipped = 0, errors = 0\<rparr> \<and>
   circuitState
     (fst (snd (processUpserts healthy ''acme'' [upsert ''bob@x.com'' ''active''] 2 70000 70001 tripped))) =
     OPEN"
  by code_simp

text \<open>
  Claim C4 as amended. While the circuit is \<open>OPEN\<close> and at most \<open>CIRCUIT_RESET_MS\<close>
  (60000 ms) have passed since it opened, \<open>processUpserts\<close> throws and leaves optimizer
  and store as they were. The first attempt more than 60000 ms after the opening is
  admitted in \<open>HALF_OPEN\<close>. Every invocation that runs to its end, whatever state it was
  admitted in and whatever its own outcome, leaves the circuit \<open>OPEN\<close> (opened at that
  moment) when the cumulative error rate \<open>totalErrors / (totalErrors + totalProcessed)\<close>
  over all invocations exceeds \<open>ERROR_THRESHOLD\<close> (0.3), and \<open>CLOSED\<close> otherwise
  (provided the totals are not both zero).
\<close>

theorem circuit_breaker_transitions:
  "(circuitState opt = OPEN \<and> now - circuitOpenTime opt \<le> 60000 \<longrightarrow>
      processUpserts faults orgId messages epochNumber now finished (opt, store) =
        (Inl CircuitOpen, opt, store)) \<and>
   (circuitState opt = OPEN \<and> 60000 < now - circuitOpenTime opt \<longrightarrow>
      canProceed now opt = (True, opt\<lparr>circuitState := HALF_OPEN\<rparr>)) \<and>
   (processUpserts faults orgId messages epochNumber now finished (opt, store) = (Inr r, opt', store') \<and>
    totalProcessed (metrics opt') + totalErrors (metrics opt') \<noteq> 0 \<longrightarrow>
      (ERROR_THRESHOLD CONFIG < errorRate (metrics opt') \<longrightarrow>
         circuitState opt' = OPEN \<and> circuitOpenTime opt' = finished) \<and>
      (\<not> ERROR_THRESHOLD CONFIG < errorRate (metrics opt') \<longrightarrow> circuitState opt' = CLOSED))"
proof (intro conjI impI)
  assume "circuitState opt = OPEN \<and> now - circuitOpenTime opt \<le> 60000"
  then show "processUpserts faults orgId messages epochNumber now finished (opt, store) =
      (Inl CircuitOpen, opt, store)"
    by (simp add: processUpserts_def canProceed_def CONFIG_def)
next
  assume "circuitState opt = OPEN \<and> 60000 < now - circuitOpenTime opt"
  then show "canProceed now opt = (True, opt\<lparr>circuitState := HALF_OPEN\<rparr>)"
    by (simp add: canProceed_def CONFIG_def)
next
  assume a: "processUpserts faults orgId messages epochNumber now finished (opt, store) = (Inr r, opt', store') \<and>
    totalProcessed (metrics opt') + totalErrors (metrics opt') \<noteq> 0"
  then obtain opt2 where o: "circuitState opt2 \<noteq> OPEN" "opt' = updateMetrics r finished opt2"
    using processUpserts_admitted by blast
  from a o have total: "totalProcessed (metrics (updateMetrics r finished opt2)) +
      totalErrors (metrics (updateMetrics r finished opt2)) \<noteq> 0" by simp
  note u = updateMetrics_from_not_open [OF o(1) total]
  {
    assume "ERROR_THRESHOLD CONFIG < errorRate (metrics opt')"
    with u o(2) show "circuitState opt' = OPEN" by simp
  }
  {
    assume "ERROR_THRESHOLD CONFIG < errorRate (metrics opt')"
    with u o(2) show "circuitOpenTime opt' = finished" by simp
  }
  {
    assume "\<not> ERROR_THRESHOLD CONFIG < errorRate (metrics opt')"
    with u o(2) show "circuitState opt' = CLOSED" by simp
  }
qed

text \<open>
  After the same opening, a healthy invocation at 70000 that commits three employees
  brings the cumulative rate to 1 in 4 and closes the circuit.
\<close>

definition threeUpserts :: "UpsertMessage list" where
  "threeUpserts =
     [upsert ''bob@x.com'' ''active'', upsert ''al@x.com'' ''active'', upsert ''cy@x.com'' ''left'']"

lemma recovered_value:
  "processUpserts healthy ''acme'' threeUpserts 2 70000 70001 tripped =
     (Inr \<lparr>processed = 3, skipped = 0, errors = 0\<rparr>,
      \<lparr>cache = [(''org:acme'', \<lparr>data = [], timestamp = 1000, sizeBytes = 0\<rparr>)],
        metrics = \<lparr>totalProcessed = 3, totalErrors = 1, totalQueries = 1, totalWrites = 2,
                   queryTimeMs = 0, writeTimeMs = 0, cacheHits = 1, cacheMisses = 1,
                   startTime = 0\<rparr>,
        circuitState = CLOSED, circuitOpenTime = 1001, currentBatchSize = 420\<rparr>,
      \<lparr>orgDoc = None,
        employees =
          [(0, \<lparr>email = ''cy@x.com'', statusInOrg = JStr ''left'', presentInLatest = True,
                 lastSeenEpoch = 2, updatedAt = 70000, source = ''kafka:upsert'',
                 lastEventId = None\<rparr>),
           (1, \<lparr>email = ''al@x.com'', statusInOrg = JStr ''active'', presentInLatest = True,
                 lastSeenEpoch = 2, updatedAt = 70000, source = ''kafka:upsert'',
                 lastEventId = None\<rparr>),
           (2, \<lparr>email = ''bob@x.com'', statusInOrg = JStr ''active'', presentInLatest = True,
                 lastSeenEpoch = 2, updatedAt = 70000, source = ''kafka:upsert'',
                 lastEventId = None\<rparr>)]\<rparr>)"
  by code_simp

lemma rate_1_in_4: "\<not> ERROR_THRESHOLD CONFIG < roundDouble (1 / 4)"
  by code_simp

theorem circuit_breaker_transitions_witness:
  "circuitState (fst tripped) = OPEN \<and> 2000 - circuitOpenTime (fst tripped) \<le> 60000 \<and>
   processUpserts healthy ''acme'' threeUpserts 2 2000 2001 tripped =
     (Inl CircuitOpen, tripped) \<and>
   60000 < 70000 - circuitOpenTime (fst tripped) \<and>
   canProceed 70000 (fst tripped) = (True, (fst tripped)\<lparr>circuitState := HALF_OPEN\<rparr>) \<and>
   fst (processUpserts healthy ''acme'' threeUpserts 2 70000 70001 tripped) =
     Inr \<lparr>processed = 3, skipped = 0, errors = 0\<rparr> \<and>
   circuitState
     (fst (snd (processUpserts healthy ''acme'' threeUpserts 2 70000 70001 tripped))) =
     CLOSED"
proof -
  have h1: "circuitState (fst tripped) = OPEN \<and> 2000 - circuitOpenTime (fst tripped) \<le> 60000"
    by (simp add: tripped_value)
  have h2: "circuitState (fst tripped) = OPEN \<and> 60000 < 70000 - circuitOpenTime (fst tripped)"
    by (simp add: tripped_value)
  note run = recovered_value
  let ?r = "\<lparr>processed = 3, skipped = 0, errors = 0\<rparr>"
  let ?opt' = "fst (snd (processUpserts healthy ''acme'' threeUpserts 2 70000 70001 tripped))"
  let ?store' = "snd (snd (processUpserts healthy ''acme'' threeUpserts 2 70000 70001 tripped))"
  have h3: "processUpserts healthy ''acme'' threeUpserts 2 70000 70001 (fst tripped, snd tripped) =
        (Inr ?r, ?opt', ?store') \<and>
      totalProcessed (metrics ?opt') + totalErrors (metrics ?opt') \<noteq> 0"
    by (simp add: run)
  have rate: "\<not> ERROR_THRESHOLD CONFIG < errorRate (metrics ?opt')"
    using rate_1_in_4 by (simp add: run errorRate_def)
  have a: "processUpserts healthy ''acme'' threeUpserts 2 2000 2001 (fst tripped, snd tripped) =
      (Inl CircuitOpen, fst tripped, snd tripped)"
    using circuit_breaker_transitions
      [where opt = "fst tripped" and now = 2000 and faults = healthy and orgId = "''acme''"
         and messages = threeUpserts and epochNumber = 2 and finished = 2001
         and store = "snd tripped"] h1
    by simp
  have b: "canProceed 70000 (fst tripped) = (True, (fst tripped)\<lparr>circuitState := HALF_OPEN\<rparr>)"
    using circuit_breaker_transitions [where opt = "fst tripped" and now = 70000] h2
    by blast
  have c: "circuitState ?opt' = CLOSED"
    using circuit_breaker_transitions
      [where opt = "fst tripped" and now = 70000 and faults = healthy and orgId = "''acme''"
         and messages = threeUpserts and epochNumber = 2 and finished = 70001
         and store = "snd tripped" and r = ?r and opt' = ?opt' and store' = ?store'] h3 rate
    by simp
  from h1 h2 a b c show ?thesis by (simp add: run)
qed

subsection \<open>Last write wins within one invocation\<close>

text \<open>The last message of the input, in input order, that carries the address \<open>e\<close>.\<close>

definition lastOccurrence :: "string \<Rightarrow> UpsertMessage list \<Rightarrow> UpsertMessage option" where
  "lastOccurrence e messages =
     (case filter (\<lambda>m. messageEmail m = Some e) messages of
        [] \<Rightarrow> None
      | ms \<Rightarrow> Some (last ms))"

lemma find_rev_last:
  "find P (rev xs) = (case filter P xs of [] \<Rightarrow> None | ys \<Rightarrow> Some (last ys))"
  by (induction xs rule: rev_induct) (auto split: list.splits)

lemma deduplicate_loop_distinct:
  "distinct acc \<Longrightarrow> distinct (foldl deduplicateStep acc ms)"
  by (induction ms arbitrary: acc) (auto simp: deduplicateStep_def split: option.splits)

lemma deduplicate_loop_set:
  "set (foldl deduplicateStep acc ms) = set acc \<union> {e. \<exists>m\<in>set ms. messageEmail m = Some e}"
  by (induction ms arbitrary: acc) (auto simp: deduplicateStep_def split: option.splits)

lemma prepare_loop_emails:
  "map itemEmail dl = pe \<Longrightarrow>
   foldl (prepareStep ex ep now) (dl, pe) ms = (dl', pe') \<Longrightarrow>
   map itemEmail dl' = pe' \<and> pe' = foldl deduplicateStep pe ms"
proof (induction ms arbitrary: dl pe)
  case Nil
  then show ?case by simp
next
  case (Cons m ms)
  obtain dl1 pe1 where step: "prepareStep ex ep now (dl, pe) m = (dl1, pe1)"
    by (cases "prepareStep ex ep now (dl, pe) m")
  with Cons.prems(1) have inv: "map itemEmail dl1 = pe1" and d: "pe1 = deduplicateStep pe m"
    by (auto simp: prepareStep_def deduplicateStep_def preparedItem_def split: option.splits if_splits)
  from Cons.prems(2) step have "foldl (prepareStep ex ep now) (dl1, pe1) ms = (dl', pe')" by simp
  from Cons.IH [OF inv this] d show ?case by simp
qed

lemma prepare_loop_items:
  "foldl (prepareStep ex ep now) (dl, pe) ms = (dl', pe') \<Longrightarrow> d \<in> set dl' \<Longrightarrow>
   d \<in> set dl \<or>
   (itemEmail d \<notin> set pe \<and>
    (\<exists>m. find (\<lambda>m. messageEmail m = Some (itemEmail d)) ms = Some m \<and>
         d = preparedItem ex ep now (itemEmail d) m))"
proof (induction ms arbitrary: dl pe)
  case Nil
  then show ?case by simp
next
  case (Cons m ms)
  obtain dl1 pe1 where step: "prepareStep ex ep now (dl, pe) m = (dl1, pe1)"
    by (cases "prepareStep ex ep now (dl, pe) m")
  from Cons.prems(1) step have run: "foldl (prepareStep ex ep now) (dl1, pe1) ms = (dl', pe')" by simp
  note ih = Cons.IH [OF run Cons.prems(2)]
  show ?case
  proof (cases "messageEmail m")
    case None
    with step have "dl1 = dl" "pe1 = pe" by (auto simp: prepareStep_def)
    with ih None show ?thesis by auto
  next
    case (Some e)
    show ?thesis
    proof (cases "e \<in> set pe")
      case True
      with Some step have "dl1 = dl" "pe1 = pe" by (auto simp: prepareStep_def)
      with ih Some True show ?thesis by auto
    next
      case False
      with Some step have s1: "dl1 = dl @ [preparedItem ex ep now e m]" "pe1 = pe @ [e]"
        by (auto simp: prepareStep_def)
      have ie: "itemEmail (preparedItem ex ep now e m) = e" by (simp add: preparedItem_def)
      from ih s1 Some False ie show ?thesis by auto
    qed
  qed
qed


lemma concat_chunks: "0 < n \<or> xs = [] \<Longrightarrow> concat (chunks n xs) = xs"
proof (induction n xs rule: chunks.induct)
  case (1 n xs)
  show ?case
  proof (cases "n = 0 \<or> xs = []")
    case True
    with "1.prems" show ?thesis by (auto simp: chunks.simps [of n xs])
  next
    case False
    then have "concat (chunks n (drop n xs)) = drop n xs"
      using "1.IH" by auto
    with False show ?thesis by (simp add: chunks.simps [of n xs])
  qed
qed

lemma commitBatch_append:
  "commitBatch (xs @ ys) emps = commitBatch ys (commitBatch xs emps)"
  by (simp add: commitBatch_def)

lemma writeWave_no_failures:
  "\<forall>i. \<not> fails i \<Longrightarrow>
   writeWave fails wave (c, e, emps) =
     (c + length (concat (map snd wave)), e, commitBatch (concat (map snd wave)) emps)"
proof (induction wave arbitrary: c emps)
  case Nil
  then show ?case by (simp add: writeWave_def commitBatch_def)
next
  case (Cons b wave)
  obtain i batch where b: "b = (i, batch)" by (cases b)
  have "writeWave fails (b # wave) (c, e, emps) =
      writeWave fails wave (c + length batch, e, commitBatch batch emps)"
    using Cons.prems b by (simp add: writeWave_def)
  also have "\<dots> = (c + length batch + length (concat (map snd wave)), e,
      commitBatch (concat (map snd wave)) (commitBatch batch emps))"
    using Cons.IH [OF Cons.prems] .
  finally show ?case using b by (simp add: commitBatch_append)
qed

lemma writeBatches_loop_no_failures:
  "\<forall>i. \<not> fails i \<Longrightarrow>
   foldl
     (\<lambda>(cnt, errs, ob, es) wave.
        case writeWave fails wave (cnt, errs, es) of
          (cnt1, errs1, es1) \<Rightarrow> (cnt1, errs1, adaptBatchSize errs1 cnt1 ob, es1))
     (c, e, opt, emps) waves = (c', e', opt', emps') \<Longrightarrow>
   c' = c + length (concat (map snd (concat waves))) \<and> e' = e \<and>
   emps' = commitBatch (concat (map snd (concat waves))) emps"
proof (induction waves arbitrary: c opt emps)
  case Nil
  then show ?case by (simp add: commitBatch_def)
next
  case (Cons wave waves)
  let ?items = "concat (map snd wave)"
  have w: "writeWave fails wave (c, e, emps) = (c + length ?items, e, commitBatch ?items emps)"
    using Cons.prems(1) by (rule writeWave_no_failures)
  with Cons.prems(2) have
    "foldl
       (\<lambda>(cnt, errs, ob, es) wave.
          case writeWave fails wave (cnt, errs, es) of
            (cnt1, errs1, es1) \<Rightarrow> (cnt1, errs1, adaptBatchSize errs1 cnt1 ob, es1))
       (c + length ?items, e, adaptBatchSize e (c + length ?items) opt, commitBatch ?items emps) waves =
     (c', e', opt', emps')"
    by simp
  from Cons.IH [OF Cons.prems(1) this] show ?case by (simp add: commitBatch_append)
qed

lemma map_snd_enumerate: "map snd (enumerate n xs) = xs"
  by (induction xs arbitrary: n) simp_all

lemma writeBatches_no_failures:
  assumes "\<forall>i. \<not> fails i" and "0 < currentBatchSize opt \<or> dl = []"
    and "writeBatches fails dl opt emps = (r, opt', emps')"
  shows "r = \<lparr>processed = length dl, skipped = 0, errors = 0\<rparr> \<and> emps' = commitBatch dl emps"
proof -
  let ?batches = "chunks (nat (currentBatchSize opt)) dl"
  let ?waves = "chunks (MAX_PARALLEL_BATCHES CONFIG) (enumerate 0 ?batches)"
  obtain c' e' opt1 emps1 where loop:
    "foldl
       (\<lambda>(cnt, errs, ob, es) wave.
          case writeWave (fails) wave (cnt, errs, es) of
            (cnt1, errs1, es1) \<Rightarrow> (cnt1, errs1, adaptBatchSize errs1 cnt1 ob, es1))
       (0, 0, opt, emps) ?waves = (c', e', opt1, emps1)"
    using prod_cases4 by blast
  from assms(3) loop have r: "r = \<lparr>processed = c', skipped = 0, errors = e'\<rparr>" and e: "emps' = emps1"
    by (auto simp: writeBatches_def Let_def)
  have "concat ?waves = enumerate 0 ?batches"
    by (rule concat_chunks) (simp add: CONFIG_def)
  then have items: "concat (map snd (concat ?waves)) = dl"
    using assms(2) by (simp add: map_snd_enumerate concat_chunks)
  from writeBatches_loop_no_failures [OF assms(1) loop] items r e show ?thesis by simp
qed


lemma processUpserts_writes:
  assumes "\<forall>i. \<not> commitFails faults i"
    and "processUpserts faults orgId messages epochNumber now finished (opt, store) = (Inr r, opt', store')"
  shows "\<exists>existingEmployees.
           employees store' =
             commitBatch (prepareEmployeeData messages existingEmployees epochNumber now) (employees store) \<and>
           r = \<lparr>processed = length (prepareEmployeeData messages existingEmployees epochNumber now),
                skipped = 0, errors = 0\<rparr>"
proof -
  obtain ok opt0 where cp: "canProceed now opt = (ok, opt0)" by (cases "canProceed now opt")
  with assms(2) have ok: "ok" by (cases ok) (auto simp: processUpserts_def)
  obtain ex opt1 where le:
    "loadExistingEmployees (queryFails faults) orgId (employees store) (deduplicateEmails messages) now opt0 = (ex, opt1)"
    by (cases "loadExistingEmployees (queryFails faults) orgId (employees store) (deduplicateEmails messages) now opt0")
  let ?dl = "prepareEmployeeData messages ex epochNumber now"
  obtain r2 opt2 emps where wb:
    "writeBatches (commitFails faults) ?dl opt1 (employees store) = (r2, opt2, emps)"
    by (cases "writeBatches (commitFails faults) ?dl opt1 (employees store)")
  from assms(2) cp ok le wb have size: "0 < currentBatchSize opt1 \<or> ?dl = []"
    and res: "r = r2" "employees store' = emps"
    by (auto simp: processUpserts_def Let_def split: if_splits)
  from writeBatches_no_failures [OF assms(1) size wb] res
  show ?thesis by (intro exI [of _ ex]) simp
qed

text \<open>
  Deduplication as such: within one invocation the update prepared for an address is the
  one of its last occurrence. The prepared list has exactly the deduplicated addresses,
  each once; every item is built from the last message carrying its address, so it holds
  that message's \<open>statusInOrg\<close> (\<open>active\<close> when that message has none or an empty one,
  never an earlier occurrence's). When no commit is rejected, an invocation that runs to
  its end commits the list prepared against some lookup map, one write per item, and
  nothing else. Which document a write reaches depends on that lookup map; the
  subsections after this one show what is in the collection afterwards.
\<close>

theorem prepareEmployeeData_last_occurrence_wins:
  "map itemEmail (prepareEmployeeData messages existingEmployees epochNumber now) =
     deduplicateEmails messages \<and>
   distinct (deduplicateEmails messages) \<and>
   set (deduplicateEmails messages) = {e. \<exists>m\<in>set messages. messageEmail m = Some e} \<and>
   (\<forall>d\<in>set (prepareEmployeeData messages existingEmployees epochNumber now).
      \<exists>m. lastOccurrence (itemEmail d) messages = Some m \<and>
          itemData d = employeeDataOf (itemEmail d) m epochNumber now \<and>
          email (itemData d) = itemEmail d \<and>
          statusInOrg (itemData d) = statusOrActive (msgStatusInOrg m) \<and>
          (\<forall>s. msgStatusInOrg m = Some (JStr s) \<and> s \<noteq> [] \<longrightarrow> statusInOrg (itemData d) = JStr s)) \<and>
   ((\<forall>i. \<not> commitFails faults i) \<and>
    processUpserts faults orgId messages epochNumber now finished (opt, store) = (Inr r, opt', store') \<longrightarrow>
      (\<exists>existing.
         employees store' =
           commitBatch (prepareEmployeeData messages existing epochNumber now) (employees store) \<and>
         processed r = length (deduplicateEmails messages) \<and> errors r = 0))"
proof (intro conjI ballI impI)
  let ?step = "prepareStep existingEmployees epochNumber now"
  obtain dl pe where run: "foldl ?step ([], []) (rev messages) = (dl, pe)"
    by (cases "foldl ?step ([], []) (rev messages)")
  then have out: "prepareEmployeeData messages existingEmployees epochNumber now = dl"
    by (simp add: prepareEmployeeData_def)
  from prepare_loop_emails [OF _ run]
  have emails: "map itemEmail dl = pe" "pe = deduplicateEmails messages"
    by (simp_all add: deduplicateEmails_def)
  show "map itemEmail (prepareEmployeeData messages existingEmployees epochNumber now) =
      deduplicateEmails messages"
    using out emails by simp
  show "distinct (deduplicateEmails messages)"
    unfolding deduplicateEmails_def by (rule deduplicate_loop_distinct) simp
  show "set (deduplicateEmails messages) = {e. \<exists>m\<in>set messages. messageEmail m = Some e}"
    unfolding deduplicateEmails_def by (simp add: deduplicate_loop_set)
  {
    fix d
    assume "d \<in> set (prepareEmployeeData messages existingEmployees epochNumber now)"
    then have "d \<in> set dl" by (simp add: out)
    from prepare_loop_items [OF run this]
    obtain m where m: "find (\<lambda>m. messageEmail m = Some (itemEmail d)) (rev messages) = Some m"
      and d: "d = preparedItem existingEmployees epochNumber now (itemEmail d) m"
      by auto
    from m have last: "lastOccurrence (itemEmail d) messages = Some m"
      by (simp add: lastOccurrence_def find_rev_last)
    from d have data: "itemData d = employeeDataOf (itemEmail d) m epochNumber now"
      by (metis PreparedItem.select_convs(2) preparedItem_def)
    have "\<forall>s. msgStatusInOrg m = Some (JStr s) \<and> s \<noteq> [] \<longrightarrow> statusInOrg (itemData d) = JStr s"
      by (simp add: data employeeDataOf_def statusOrActive_def)
    with last data
    show "\<exists>m. lastOccurrence (itemEmail d) messages = Some m \<and>
          itemData d = employeeDataOf (itemEmail d) m epochNumber now \<and>
          email (itemData d) = itemEmail d \<and>
          statusInOrg (itemData d) = statusOrActive (msgStatusInOrg m) \<and>
          (\<forall>s. msgStatusInOrg m = Some (JStr s) \<and> s \<noteq> [] \<longrightarrow> statusInOrg (itemData d) = JStr s)"
      by (intro exI [of _ m]) (simp add: employeeDataOf_def)
  }
  {
    assume a: "(\<forall>i. \<not> commitFails faults i) \<and>
      processUpserts faults orgId messages epochNumber now finished (opt, store) = (Inr r, opt', store')"
    then obtain ex where w: "employees store' =
          commitBatch (prepareEmployeeData messages ex epochNumber now) (employees store)"
        "r = \<lparr>processed = length (prepareEmployeeData messages ex epochNumber now),
             skipped = 0, errors = 0\<rparr>"
      using processUpserts_writes by blast
    obtain dl2 pe2 where run2:
      "foldl (prepareStep ex epochNumber now) ([], []) (rev messages) = (dl2, pe2)"
      by (cases "foldl (prepareStep ex epochNumber now) ([], []) (rev messages)")
    from prepare_loop_emails [OF _ run2]
    have "map itemEmail dl2 = deduplicateEmails messages"
      by (simp add: deduplicateEmails_def)
    then have "length (prepareEmployeeData messages ex epochNumber now) = length (deduplicateEmails messages)"
      using run2 by (metis fst_conv length_map prepareEmployeeData_def)
    with w show "\<exists>existing.
         employees store' =
           commitBatch (prepareEmployeeData messages existing epochNumber now) (employees store) \<and>
         processed r = length (deduplicateEmails messages) \<and> errors r = 0"
      by (intro exI [of _ ex]) simp
  }
qed

text \<open>Scenario S4 of the spec, with the second address in another spelling.\<close>

definition duplicateUpserts :: "UpsertMessage list" where
  "duplicateUpserts = [upsert ''bob@x.com'' ''active'', upsert '' Bob@X.com'' ''inactive'']"

lemma duplicateUpserts_prepared:
  "prepareEmployeeData duplicateUpserts [] 1 1000 =
     [\<lparr>itemEmail = ''bob@x.com'',
       itemData = \<lparr>email = ''bob@x.com'', statusInOrg = JStr ''inactive'', presentInLatest = True,
                   lastSeenEpoch = 1, updatedAt = 1000, source = ''kafka:upsert'',
                   lastEventId = None\<rparr>,
       itemRef = None, isNew = True\<rparr>]"
  by code_simp

lemma duplicateUpserts_run:
  "processUpserts healthy ''acme'' duplicateUpserts 1 1000 1001 (newOptimizer 0, emptyOrgStore) =
     (Inr \<lparr>processed = 1, skipped = 0, errors = 0\<rparr>,
      \<lparr>cache = [(''org:acme'', \<lparr>data = [], timestamp = 1000, sizeBytes = 0\<rparr>)],
        metrics = \<lparr>totalProcessed = 1, totalErrors = 0, totalQueries = 1, totalWrites = 1,
                   queryTimeMs = 0, writeTimeMs = 0, cacheHits = 0, cacheMisses = 1,
                   startTime = 0\<rparr>,
        circuitState = CLOSED, circuitOpenTime = 0, currentBatchSize = 500\<rparr>,
      \<lparr>orgDoc = None,
        employees =
          [(0, \<lparr>email = ''bob@x.com'', statusInOrg = JStr ''inactive'', presentInLatest = True,
                 lastSeenEpoch = 1, updatedAt = 1000, source = ''kafka:upsert'',
                 lastEventId = None\<rparr>)]\<rparr>)"
  by code_simp

theorem prepareEmployeeData_last_occurrence_wins_witness:
  "deduplicateEmails duplicateUpserts = [''bob@x.com''] \<and>
   lastOccurrence ''bob@x.com'' duplicateUpserts = Some (upsert '' Bob@X.com'' ''inactive'') \<and>
   map (\<lambda>d. (itemEmail d, statusInOrg (itemData d))) (prepareEmployeeData duplicateUpserts [] 1 1000) =
     [(''bob@x.com'', JStr ''inactive'')] \<and>
   map (\<lambda>(ref, d). (email d, statusInOrg d))
     (employees (snd (snd (processUpserts healthy ''acme'' duplicateUpserts 1 1000 1001
                             (newOptimizer 0, emptyOrgStore))))) =
     [(''bob@x.com'', JStr ''inactive'')] \<and>
   processed (projr (fst (processUpserts healthy ''acme'' duplicateUpserts 1 1000 1001
                            (newOptimizer 0, emptyOrgStore)))) =
     length (deduplicateEmails duplicateUpserts)"
proof -
  let ?d = "\<lparr>itemEmail = ''bob@x.com'',
       itemData = \<lparr>email = ''bob@x.com'', statusInOrg = JStr ''inactive'', presentInLatest = True,
                   lastSeenEpoch = 1, updatedAt = 1000, source = ''kafka:upsert'',
                   lastEventId = None\<rparr>,
       itemRef = None, isNew = True\<rparr>"
  let ?run = "processUpserts healthy ''acme'' duplicateUpserts 1 1000 1001 (newOptimizer 0, emptyOrgStore)"
  note inst = prepareEmployeeData_last_occurrence_wins
    [where messages = duplicateUpserts and existingEmployees = "[]" and epochNumber = 1 and now = 1000
       and faults = healthy and orgId = "''acme''" and finished = 1001 and opt = "newOptimizer 0"
       and store = emptyOrgStore and r = "projr (fst ?run)" and opt' = "fst (snd ?run)"
       and store' = "snd (snd ?run)"]
  have mem: "?d \<in> set (prepareEmployeeData duplicateUpserts [] 1 1000)"
    by (simp add: duplicateUpserts_prepared)
  have last: "lastOccurrence ''bob@x.com'' duplicateUpserts = Some (upsert '' Bob@X.com'' ''inactive'')"
    by code_simp
  have hyp: "(\<forall>i. \<not> commitFails healthy i) \<and>
      ?run = (Inr (projr (fst ?run)), fst (snd ?run), snd (snd ?run))"
  proof
    show "\<forall>i. \<not> commitFails healthy i" by (simp add: healthy_def)
    show "?run = (Inr (projr (fst ?run)), fst (snd ?run), snd (snd ?run))"
      by (simp add: duplicateUpserts_run)
  qed
  from inst have emails: "map itemEmail (prepareEmployeeData duplicateUpserts [] 1 1000) =
      deduplicateEmails duplicateUpserts"
    by blast
  from inst mem last have status: "statusInOrg (itemData ?d) = statusOrActive (Some (JStr ''inactive''))"
    by (fastforce simp: upsert_def)
  from inst hyp have count: "processed (projr (fst ?run)) = length (deduplicateEmails duplicateUpserts)"
    by blast
  from emails status count last show ?thesis
    by (simp add: duplicateUpserts_prepared duplicateUpserts_run)
qed

subsection \<open>What the collection holds after the writes\<close>

lemma autoId_above: "(r, d) \<in> set emps \<Longrightarrow> r < autoId emps"
proof -
  have "\<And>m. m \<le> foldl (\<lambda>m (ref, e). max m (Suc ref)) m emps"
    by (induction emps) (auto simp: max_def intro: order_trans split: prod.splits)
  moreover have "\<And>m. (r, d) \<in> set emps \<Longrightarrow> r < foldl (\<lambda>m (ref, e). max m (Suc ref)) m emps"
  proof (induction emps)
    case Nil
    then show ?case by simp
  next
    case (Cons x emps)
    have le: "\<And>m. m \<le> foldl (\<lambda>m (ref, e). max m (Suc ref)) m emps"
      by (induction emps) (auto simp: max_def intro: order_trans split: prod.splits)
    show ?case
    proof (cases "(r, d) = x")
      case True
      have "max m (Suc r) \<le> foldl (\<lambda>m (ref, e). max m (Suc ref)) (max m (Suc r)) emps"
        by (rule le)
      with True show ?thesis by auto
    next
      case False
      with Cons.prems have "(r, d) \<in> set emps" by simp
      from Cons.IH [OF this] show ?thesis by (simp split: prod.splits)
    qed
  qed
  ultimately show "(r, d) \<in> set emps \<Longrightarrow> r < autoId emps" by (simp add: autoId_def)
qed

lemma autoId_fresh: "autoId emps \<notin> fst ` set emps"
  using autoId_above by fastforce

lemma find_map_same:
  "(\<And>x. x \<in> set xs \<Longrightarrow> P (f x) = P x) \<Longrightarrow> find P (map f xs) = map_option f (find P xs)"
  by (induction xs) auto

lemma find_append_cases:
  "find P (xs @ ys) = (case find P xs of None \<Rightarrow> find P ys | Some x \<Rightarrow> Some x)"
  by (induction xs) auto

lemma findByEmail_Some_iff:
  assumes "distinct (map (email \<circ> snd) emps)"
  shows "findByEmail e emps = Some (r, d) \<longleftrightarrow> (r, d) \<in> set emps \<and> email d = e"
  using assms
proof (induction emps)
  case Nil
  then show ?case by (simp add: findByEmail_def)
next
  case (Cons x emps)
  then show ?case by (cases x) (force simp: findByEmail_def)
qed

lemma findByEmail_None_iff:
  "findByEmail e emps = None \<longleftrightarrow> (\<forall>(r, d)\<in>set emps. email d \<noteq> e)"
  by (auto simp: findByEmail_def find_None_iff)

text \<open>
  The collection is in order when no two documents share an id or an address. An item's
  reference is accurate when it is the id of the document with the item's address, if
  there is one.
\<close>

definition oneDocPerEmail :: "(doc_ref \<times> Employee) list \<Rightarrow> bool" where
  "oneDocPerEmail emps \<longleftrightarrow> distinct (map fst emps) \<and> distinct (map (email \<circ> snd) emps)"

text \<open>One turn of the loop of \<open>commitBatch\<close>.\<close>

definition commitItem :: "PreparedItem \<Rightarrow> (doc_ref \<times> Employee) list \<Rightarrow> (doc_ref \<times> Employee) list" where
  "commitItem item emps =
     (case itemRef item of
        Some ref \<Rightarrow> setMerge ref (itemData item) emps
      | None \<Rightarrow> setNew (itemData item) emps)"

lemma commitBatch_Cons: "commitBatch (item # batch) emps = commitBatch batch (commitItem item emps)"
  by (simp add: commitBatch_def commitItem_def)

lemma commitItem_existing:
  assumes wf: "oneDocPerEmail emps"
    and found: "findByEmail (email upd) emps = Some (ref, old)"
    and item: "itemRef item = Some ref" "itemData item = upd"
  shows "oneDocPerEmail (commitItem item emps)"
    and "findByEmail (email upd) (commitItem item emps) = Some (ref, mergeFields old upd)"
    and "e \<noteq> email upd \<Longrightarrow> findByEmail e (commitItem item emps) = findByEmail e emps"
    and "map fst (commitItem item emps) = map fst emps"
proof -
  let ?f = "\<lambda>(r, x). if r = ref then (r, mergeFields x upd) else (r, x)"
  from wf have dr: "distinct (map fst emps)" and de: "distinct (map (email \<circ> snd) emps)"
    by (simp_all add: oneDocPerEmail_def)
  from found de have mem: "(ref, old) \<in> set emps" and eo: "email old = email upd"
    by (simp_all add: findByEmail_Some_iff)
  then have "ref \<in> fst ` set emps" by force
  with item have res: "commitItem item emps = map ?f emps"
    by (simp add: commitItem_def setMerge_def)
  have only: "\<And>r x. (r, x) \<in> set emps \<Longrightarrow> r = ref \<Longrightarrow> x = old"
    using dr mem by (meson eq_key_imp_eq_value)
  have keep: "\<And>p. p \<in> set emps \<Longrightarrow> email (snd (?f p)) = email (snd p)"
    using only eo by (auto simp: mergeFields_def)
  have refs: "map fst (map ?f emps) = map fst emps"
    by (induction emps) auto
  have emails: "map (email \<circ> snd) (map ?f emps) = map (email \<circ> snd) emps"
    using keep by (induction emps) auto
  show "oneDocPerEmail (commitItem item emps)"
    using dr de refs emails by (simp add: res oneDocPerEmail_def del: map_map)
  show "map fst (commitItem item emps) = map fst emps"
    using refs res by simp
  have fm: "\<And>e. findByEmail e (map ?f emps) = map_option ?f (findByEmail e emps)"
    unfolding findByEmail_def
  proof (rule find_map_same)
    fix e x assume "x \<in> set emps"
    from keep [OF this] show "(case ?f x of (ref, d) \<Rightarrow> email d = e) = (case x of (ref, d) \<Rightarrow> email d = e)"
      by (cases x) (auto split: if_splits)
  qed
  show "findByEmail (email upd) (commitItem item emps) = Some (ref, mergeFields old upd)"
    by (simp add: res fm found)
  show "findByEmail e (commitItem item emps) = findByEmail e emps" if ne: "e \<noteq> email upd"
  proof (cases "findByEmail e emps")
    case None
    then show ?thesis by (simp add: res fm)
  next
    case (Some p)
    obtain r x where p: "p = (r, x)" by (cases p)
    with Some de have "(r, x) \<in> set emps" "email x = e" by (simp_all add: findByEmail_Some_iff)
    with only eo ne have "r \<noteq> ref" by auto
    with Some p show ?thesis by (simp add: res fm)
  qed
qed

lemma commitItem_new:
  assumes wf: "oneDocPerEmail emps"
    and found: "findByEmail (email upd) emps = None"
    and item: "itemRef item = None" "itemData item = upd"
  shows "oneDocPerEmail (commitItem item emps)"
    and "findByEmail (email upd) (commitItem item emps) = Some (autoId emps, upd)"
    and "e \<noteq> email upd \<Longrightarrow> findByEmail e (commitItem item emps) = findByEmail e emps"
    and "map fst (commitItem item emps) = map fst emps @ [autoId emps]"
proof -
  from item have res: "commitItem item emps = emps @ [(autoId emps, upd)]"
    by (simp add: commitItem_def setNew_def)
  from found have no: "email upd \<notin> (email \<circ> snd) ` set emps"
    by (auto simp: findByEmail_None_iff)
  show "oneDocPerEmail (commitItem item emps)"
    using wf no autoId_fresh [of emps] by (simp add: res oneDocPerEmail_def)
  show "findByEmail (email upd) (commitItem item emps) = Some (autoId emps, upd)"
    using found by (simp add: res findByEmail_def find_append_cases)
  show "e \<noteq> email upd \<Longrightarrow> findByEmail e (commitItem item emps) = findByEmail e emps"
    by (simp add: res findByEmail_def find_append_cases split: option.splits)
  show "map fst (commitItem item emps) = map fst emps @ [autoId emps]"
    by (simp add: res)
qed

text \<open>
  A batch whose items have distinct addresses and accurate references leaves the
  collection in order; it merges each item into the document of its address, or creates
  that document under an id that was not in use, and leaves every other address alone.
\<close>

lemma commitBatch_accurate:
  assumes "oneDocPerEmail emps"
    and "distinct (map itemEmail items)"
    and "\<forall>d\<in>set items. email (itemData d) = itemEmail d \<and>
           itemRef d = map_option fst (findByEmail (itemEmail d) emps)"
  shows "oneDocPerEmail (commitBatch items emps) \<and>
         fst ` set emps \<subseteq> fst ` set (commitBatch items emps) \<and>
         (\<forall>e. e \<notin> itemEmail ` set items \<longrightarrow>
            findByEmail e (commitBatch items emps) = findByEmail e emps) \<and>
         (\<forall>d\<in>set items. \<exists>ref x.
            findByEmail (itemEmail d) (commitBatch items emps) = Some (ref, x) \<and>
            (case findByEmail (itemEmail d) emps of
               Some (r, old) \<Rightarrow> ref = r \<and> x = mergeFields old (itemData d)
             | None \<Rightarrow> ref \<notin> fst ` set emps \<and> x = itemData d))"
  using assms
proof (induction items arbitrary: emps)
  case Nil
  then show ?case by (simp add: commitBatch_def)
next
  case (Cons d items)
  let ?e = "itemEmail d"
  let ?emps1 = "commitItem d emps"
  let ?out = "commitBatch (d # items) emps"
  from Cons.prems(3) have em: "email (itemData d) = ?e"
    and ref: "itemRef d = map_option fst (findByEmail ?e emps)"
    by simp_all
  have step: "oneDocPerEmail ?emps1 \<and>
      fst ` set emps \<subseteq> fst ` set ?emps1 \<and>
      (\<forall>e. e \<noteq> ?e \<longrightarrow> findByEmail e ?emps1 = findByEmail e emps) \<and>
      (\<exists>ref x. findByEmail ?e ?emps1 = Some (ref, x) \<and>
         (case findByEmail ?e emps of
            Some (r, old) \<Rightarrow> ref = r \<and> x = mergeFields old (itemData d)
          | None \<Rightarrow> ref \<notin> fst ` set emps \<and> x = itemData d))"
  proof (cases "findByEmail ?e emps")
    case None
    with ref have r: "itemRef d = None" by simp
    from None em have f: "findByEmail (email (itemData d)) emps = None" by simp
    note new = commitItem_new [OF Cons.prems(1) f r refl]
    have "set (map fst emps) \<subseteq> set (map fst ?emps1)"
      unfolding new(4) by auto
    then have sub: "fst ` set emps \<subseteq> fst ` set ?emps1" by simp
    from new(1) new(2) new(3) sub None em autoId_fresh [of emps] show ?thesis
      by auto
  next
    case (Some p)
    obtain r old where p: "p = (r, old)" by (cases p)
    with Some ref have r: "itemRef d = Some r" by simp
    from Some p em have f: "findByEmail (email (itemData d)) emps = Some (r, old)" by simp
    note ex = commitItem_existing [OF Cons.prems(1) f r refl]
    have "set (map fst emps) \<subseteq> set (map fst ?emps1)"
      unfolding ex(4) by auto
    then have sub: "fst ` set emps \<subseteq> fst ` set ?emps1" by simp
    from ex(1) ex(2) ex(3) sub Some p em show ?thesis
      by auto
  qed
  then have wf1: "oneDocPerEmail ?emps1"
    and sub1: "fst ` set emps \<subseteq> fst ` set ?emps1"
    and other1: "\<And>e. e \<noteq> ?e \<Longrightarrow> findByEmail e ?emps1 = findByEmail e emps"
    and here1: "\<exists>ref x. findByEmail ?e ?emps1 = Some (ref, x) \<and>
         (case findByEmail ?e emps of
            Some (r, old) \<Rightarrow> ref = r \<and> x = mergeFields old (itemData d)
          | None \<Rightarrow> ref \<notin> fst ` set emps \<and> x = itemData d)"
    by blast+
  from Cons.prems(2) have dist: "distinct (map itemEmail items)" and fresh: "?e \<notin> itemEmail ` set items"
    by simp_all
  have acc: "\<forall>d'\<in>set items. email (itemData d') = itemEmail d' \<and>
           itemRef d' = map_option fst (findByEmail (itemEmail d') ?emps1)"
  proof
    fix d' assume d': "d' \<in> set items"
    with fresh have "itemEmail d' \<noteq> ?e" by (metis imageI)
    from other1 [OF this] Cons.prems(3) d'
    show "email (itemData d') = itemEmail d' \<and>
           itemRef d' = map_option fst (findByEmail (itemEmail d') ?emps1)"
      by simp
  qed
  note ih = Cons.IH [OF wf1 dist acc]
  have out: "?out = commitBatch items ?emps1" by (rule commitBatch_Cons)
  from ih have wf: "oneDocPerEmail ?out" by (simp add: out)
  from ih sub1 have sub: "fst ` set emps \<subseteq> fst ` set ?out" unfolding out by blast
  have other: "\<forall>e. e \<notin> itemEmail ` set (d # items) \<longrightarrow> findByEmail e ?out = findByEmail e emps"
  proof (intro allI impI)
    fix e assume "e \<notin> itemEmail ` set (d # items)"
    then have "e \<noteq> ?e" "e \<notin> itemEmail ` set items" by auto
    with ih other1 show "findByEmail e ?out = findByEmail e emps" by (simp add: out)
  qed
  have here: "\<forall>d'\<in>set (d # items). \<exists>ref x.
            findByEmail (itemEmail d') ?out = Some (ref, x) \<and>
            (case findByEmail (itemEmail d') emps of
               Some (r, old) \<Rightarrow> ref = r \<and> x = mergeFields old (itemData d')
             | None \<Rightarrow> ref \<notin> fst ` set emps \<and> x = itemData d')"
  proof
    fix d' assume "d' \<in> set (d # items)"
    then consider "d' = d" | "d' \<in> set items" by auto
    then show "\<exists>ref x.
            findByEmail (itemEmail d') ?out = Some (ref, x) \<and>
            (case findByEmail (itemEmail d') emps of
               Some (r, old) \<Rightarrow> ref = r \<and> x = mergeFields old (itemData d')
             | None \<Rightarrow> ref \<notin> fst ` set emps \<and> x = itemData d')"
    proof cases
      case 1
      from ih fresh have eq: "findByEmail ?e ?out = findByEmail ?e ?emps1" by (simp add: out)
      show ?thesis unfolding 1 eq by (rule here1)
    next
      case 2
      with fresh have ne: "itemEmail d' \<noteq> ?e" by (metis imageI)
      from ih 2 obtain ref x where
        f: "findByEmail (itemEmail d') ?out = Some (ref, x)" and
        c: "case findByEmail (itemEmail d') ?emps1 of
               Some (r, old) \<Rightarrow> ref = r \<and> x = mergeFields old (itemData d')
             | None \<Rightarrow> ref \<notin> fst ` set ?emps1 \<and> x = itemData d'"
        unfolding out by blast
      from c other1 [OF ne] sub1 have
        "case findByEmail (itemEmail d') emps of
               Some (r, old) \<Rightarrow> ref = r \<and> x = mergeFields old (itemData d')
             | None \<Rightarrow> ref \<notin> fst ` set emps \<and> x = itemData d'"
        by (auto split: option.splits)
      with f show ?thesis by blast
    qed
  qed
  from wf sub other here show ?case by blast
qed

subsection \<open>What the bulk query returns\<close>

lemma update_entries: "set (AList.update k v al) \<subseteq> insert (k, v) (set al)"
  by (induction al) auto

lemma update_loop_keys:
  "fst ` set (foldl (\<lambda>acc (e, ref). AList.update e ref acc) m res) = fst ` set m \<union> fst ` set res"
proof (induction res arbitrary: m)
  case Nil
  then show ?case by simp
next
  case (Cons p res)
  obtain e ref where p: "p = (e, ref)" by (cases p)
  have "fst ` set (foldl (\<lambda>acc (e, ref). AList.update e ref acc) (AList.update e ref m) res) =
      fst ` set (AList.update e ref m) \<union> fst ` set res"
    by (rule Cons.IH)
  then show ?case by (simp add: p dom_update)
qed

lemma update_loop_entries:
  "set (foldl (\<lambda>acc (e, ref). AList.update e ref acc) m res) \<subseteq> set m \<union> set res"
proof (induction res arbitrary: m)
  case Nil
  then show ?case by simp
next
  case (Cons p res)
  obtain e ref where p: "p = (e, ref)" by (cases p)
  from Cons.IH [of "AList.update e ref m"] update_entries [of e ref m] p
  show ?case by auto
qed

lemma merge_loop_keys:
  "fst ` set (foldl (\<lambda>emailMap result. foldl (\<lambda>acc (e, ref). AList.update e ref acc) emailMap result)
                m results) =
   fst ` set m \<union> (\<Union>res\<in>set results. fst ` set res)"
  by (induction results arbitrary: m) (auto simp: update_loop_keys)

lemma merge_loop_entries:
  "set (foldl (\<lambda>emailMap result. foldl (\<lambda>acc (e, ref). AList.update e ref acc) emailMap result)
          m results) \<subseteq>
   set m \<union> (\<Union>res\<in>set results. set res)"
proof (induction results arbitrary: m)
  case Nil
  then show ?case by simp
next
  case (Cons res results)
  from Cons.IH [of "foldl (\<lambda>acc (e, ref). AList.update e ref acc) m res"]
    update_loop_entries [of m res]
  show ?case by auto
qed

lemma queryChunk_loop_keys:
  "fst ` set (foldl (\<lambda>chunkMap (ref, d). if email d = [] then chunkMap
                                          else AList.update (email d) ref chunkMap) m xs) =
   fst ` set m \<union> {email d |ref d. (ref, d) \<in> set xs \<and> email d \<noteq> []}"
proof (induction xs arbitrary: m)
  case Nil
  then show ?case by simp
next
  case (Cons p xs)
  obtain ref d where p: "p = (ref, d)" by (cases p)
  show ?case
    unfolding p by (cases "email d = []") (auto simp: Cons.IH dom_update)
qed

lemma queryChunk_loop_entries:
  "(k, v) \<in> set (foldl (\<lambda>chunkMap (ref, d). if email d = [] then chunkMap
                                    else AList.update (email d) ref chunkMap) m xs) \<Longrightarrow>
   (k, v) \<in> set m \<or> (\<exists>d. (v, d) \<in> set xs \<and> email d = k)"
proof (induction xs arbitrary: m)
  case Nil
  then show ?case by simp
next
  case (Cons p xs)
  obtain ref d where p: "p = (ref, d)" by (cases p)
  show ?case
  proof (cases "email d = []")
    case True
    with Cons.prems p have "(k, v) \<in> set (foldl (\<lambda>chunkMap (ref, d). if email d = [] then chunkMap
                                    else AList.update (email d) ref chunkMap) m xs)"
      by simp
    from Cons.IH [OF this] show ?thesis by auto
  next
    case False
    with Cons.prems p have "(k, v) \<in> set (foldl (\<lambda>chunkMap (ref, d). if email d = [] then chunkMap
                                    else AList.update (email d) ref chunkMap)
                                  (AList.update (email d) ref m) xs)"
      by simp
    from Cons.IH [OF this] have "(k, v) \<in> set (AList.update (email d) ref m) \<or>
        (\<exists>d. (v, d) \<in> set xs \<and> email d = k)" .
    moreover have "(k, v) \<in> set (AList.update (email d) ref m) \<Longrightarrow>
        (k, v) = (email d, ref) \<or> (k, v) \<in> set m"
      using update_entries [of "email d" ref m] by blast
    ultimately show ?thesis using p by auto
  qed
qed

lemma queryChunk_keys:
  "fst ` set (queryChunk emps chunk) =
     {email d |ref d. (ref, d) \<in> set emps \<and> email d \<in> set chunk \<and> email d \<noteq> []}"
  unfolding queryChunk_def queryChunk_loop_keys by auto

lemma queryChunk_entries:
  "(k, v) \<in> set (queryChunk emps chunk) \<Longrightarrow> \<exists>d. (v, d) \<in> set emps \<and> email d = k"
  unfolding queryChunk_def by (drule queryChunk_loop_entries) auto

lemma set_chunks: "0 < n \<Longrightarrow> \<Union> (set ` set (chunks n xs)) = set xs"
  using concat_chunks [of n xs] by (metis set_concat)

lemma map_enumerate_snd: "map (\<lambda>(i, x). f x) (enumerate n xs) = map f xs"
  by (induction xs arbitrary: n) simp_all

lemma bulkQueryEmployees_no_failures:
  assumes "\<forall>i. \<not> fails i"
  shows "fst (bulkQueryEmployees fails emps emails opt) =
           foldl (\<lambda>emailMap result. foldl (\<lambda>acc (e, ref). AList.update e ref acc) emailMap result)
             [] (map (queryChunk emps) (chunks (QUERY_CHUNK_SIZE CONFIG) emails))"
proof -
  have "(\<lambda>(i, chunk). if fails i then [] else queryChunk emps chunk) = (\<lambda>(i, chunk). queryChunk emps chunk)"
    using assms by auto
  then show ?thesis
    by (simp add: bulkQueryEmployees_def Let_def map_enumerate_snd)
qed

text \<open>
  When no query fails and no two documents share an address, the map the bulk query
  returns is accurate on every address asked for.
\<close>

lemma bulkQueryEmployees_accurate:
  assumes ok: "\<forall>i. \<not> fails i"
    and de: "distinct (map (email \<circ> snd) emps)"
    and e: "e \<in> set emails" "e \<noteq> []"
  shows "map_of (fst (bulkQueryEmployees fails emps emails opt)) e =
           map_option fst (findByEmail e emps)"
proof -
  let ?cs = "chunks (QUERY_CHUNK_SIZE CONFIG) emails"
  let ?M = "fst (bulkQueryEmployees fails emps emails opt)"
  have M: "?M = foldl (\<lambda>emailMap result. foldl (\<lambda>acc (e, ref). AList.update e ref acc) emailMap result)
             [] (map (queryChunk emps) ?cs)"
    using ok by (rule bulkQueryEmployees_no_failures)
  have cs: "\<Union> (set ` set ?cs) = set emails"
    by (rule set_chunks) (simp add: CONFIG_def)
  have keys: "fst ` set ?M = (\<Union>chunk\<in>set ?cs. fst ` set (queryChunk emps chunk))"
    unfolding M merge_loop_keys by simp
  have entries: "\<exists>d. (v, d) \<in> set emps \<and> email d = k" if "(k, v) \<in> set ?M" for k v
  proof -
    from that merge_loop_entries [of "[]" "map (queryChunk emps) ?cs"]
    obtain chunk where "(k, v) \<in> set (queryChunk emps chunk)"
      unfolding M by auto
    then show ?thesis by (rule queryChunk_entries)
  qed
  show ?thesis
  proof (cases "map_of ?M e")
    case None
    then have "e \<notin> fst ` set ?M" by (simp add: map_of_eq_None_iff)
    with keys have no: "\<forall>chunk\<in>set ?cs. e \<notin> fst ` set (queryChunk emps chunk)" by simp
    from e(1) cs obtain chunk where c: "chunk \<in> set ?cs" "e \<in> set chunk" by blast
    with no have "e \<notin> fst ` set (queryChunk emps chunk)" by simp
    with c(2) e(2) have "\<forall>(ref, d)\<in>set emps. email d \<noteq> e"
      unfolding queryChunk_keys by auto
    then have "findByEmail e emps = None" by (simp add: findByEmail_None_iff)
    with None show ?thesis by simp
  next
    case (Some ref)
    then have "(e, ref) \<in> set ?M" by (rule map_of_SomeD)
    from entries [OF this] obtain d where "(ref, d) \<in> set emps" "email d = e" by auto
    with de have "findByEmail e emps = Some (ref, d)" by (simp add: findByEmail_Some_iff)
    with Some show ?thesis by simp
  qed
qed

text \<open>So is the map of \<open>loadExistingEmployees\<close> when the cache does not answer.\<close>

lemma loadExistingEmployees_accurate:
  assumes miss: "fst (getFromCache (''org:'' @ orgId) now opt) = None"
    and ok: "\<forall>i. \<not> fails i"
    and de: "distinct (map (email \<circ> snd) emps)"
    and e: "e \<in> set emails" "e \<noteq> []"
  shows "map_of (fst (loadExistingEmployees fails orgId emps emails now opt)) e =
           map_option fst (findByEmail e emps)"
proof -
  obtain opt1 where g: "getFromCache (''org:'' @ orgId) now opt = (None, opt1)"
    using miss by (cases "getFromCache (''org:'' @ orgId) now opt") auto
  let ?opt2 = "opt1\<lparr>metrics := (metrics opt1)\<lparr>cacheMisses := cacheMisses (metrics opt1) + 1\<rparr>\<rparr>"
  have "fst (loadExistingEmployees fails orgId emps emails now opt) =
      fst (bulkQueryEmployees fails emps emails ?opt2)"
    using g by (simp add: loadExistingEmployees_def Let_def split: prod.splits)
  with bulkQueryEmployees_accurate [OF ok de e, of ?opt2] show ?thesis by simp
qed

subsection \<open>Last write wins when the lookup reaches the store\<close>

lemma messageEmail_nonempty: "messageEmail m = Some e \<Longrightarrow> e \<noteq> []"
  by (auto simp: messageEmail_def Let_def split: option.splits if_splits)

lemma lastOccurrence_carries:
  assumes "lastOccurrence e messages = Some m"
  shows "m \<in> set messages \<and> messageEmail m = Some e"
proof -
  let ?ms = "filter (\<lambda>m. messageEmail m = Some e) messages"
  from assms have ne: "?ms \<noteq> []" and m: "m = last ?ms"
    by (auto simp: lastOccurrence_def split: list.splits)
  from ne have "last ?ms \<in> set ?ms" by (rule last_in_set)
  with m show ?thesis by simp
qed

lemma prepareEmployeeData_refs:
  assumes "d \<in> set (prepareEmployeeData messages existingEmployees epochNumber now)"
  shows "itemRef d = map_of existingEmployees (itemEmail d)"
proof -
  let ?step = "prepareStep existingEmployees epochNumber now"
  obtain dl pe where run: "foldl ?step ([], []) (rev messages) = (dl, pe)"
    by (cases "foldl ?step ([], []) (rev messages)")
  with assms have "d \<in> set dl" by (simp add: prepareEmployeeData_def)
  from prepare_loop_items [OF run this]
  obtain m where "d = preparedItem existingEmployees epochNumber now (itemEmail d) m" by auto
  then show ?thesis by (metis PreparedItem.select_convs(3) preparedItem_def)
qed

lemma canProceed_cache: "cache (snd (canProceed now opt)) = cache opt"
  by (simp add: canProceed_def)

lemma getFromCache_cache:
  "cache opt1 = cache opt2 \<Longrightarrow> fst (getFromCache key now opt1) = fst (getFromCache key now opt2)"
  by (simp add: getFromCache_def split: option.splits)

lemma processUpserts_writes_loaded:
  assumes "\<forall>i. \<not> commitFails faults i"
    and "processUpserts faults orgId messages epochNumber now finished (opt, store) = (Inr r, opt', store')"
  shows "employees store' =
           commitBatch
             (prepareEmployeeData messages
                (fst (loadExistingEmployees (queryFails faults) orgId (employees store)
                        (deduplicateEmails messages) now (snd (canProceed now opt))))
                epochNumber now)
             (employees store)"
proof -
  obtain ok opt0 where cp: "canProceed now opt = (ok, opt0)" by (cases "canProceed now opt")
  with assms(2) have ok: "ok" by (cases ok) (auto simp: processUpserts_def)
  obtain ex opt1 where le:
    "loadExistingEmployees (queryFails faults) orgId (employees store) (deduplicateEmails messages) now opt0 = (ex, opt1)"
    by (cases "loadExistingEmployees (queryFails faults) orgId (employees store) (deduplicateEmails messages) now opt0")
  let ?dl = "prepareEmployeeData messages ex epochNumber now"
  obtain r2 opt2 emps where wb:
    "writeBatches (commitFails faults) ?dl opt1 (employees store) = (r2, opt2, emps)"
    by (cases "writeBatches (commitFails faults) ?dl opt1 (employees store)")
  from assms(2) cp ok le wb have size: "0 < currentBatchSize opt1 \<or> ?dl = []"
    and res: "r = r2" "employees store' = emps"
    by (auto simp: processUpserts_def Let_def split: if_splits)
  from writeBatches_no_failures [OF assms(1) size wb] res cp le
  show ?thesis by simp
qed

text \<open>
  With no failure, a collection in order and a cache that does not answer for the
  organization, an invocation that runs to its end leaves the collection in order, and
  the one document of every address of the input holds the \<open>statusInOrg\<close> of the
  address's last occurrence; it is the document the address had, if it had one. Other
  addresses are as before.
\<close>

lemma processUpserts_last_write_observable:
  assumes noq: "\<forall>i. \<not> queryFails faults i" and noc: "\<forall>i. \<not> commitFails faults i"
    and miss: "fst (getFromCache (''org:'' @ orgId) now opt) = None"
    and wf: "oneDocPerEmail (employees store)"
    and run: "processUpserts faults orgId messages epochNumber now finished (opt, store) = (Inr r, opt', store')"
  shows "oneDocPerEmail (employees store') \<and>
         (\<forall>e m. lastOccurrence e messages = Some m \<longrightarrow>
            (\<exists>ref d. findByEmail e (employees store') = Some (ref, d) \<and>
               statusInOrg d = statusOrActive (msgStatusInOrg m) \<and>
               lastSeenEpoch d = epochNumber \<and> presentInLatest d \<and>
               (\<forall>r old. findByEmail e (employees store) = Some (r, old) \<longrightarrow> ref = r))) \<and>
         (\<forall>e. (\<forall>m\<in>set messages. messageEmail m \<noteq> Some e) \<longrightarrow>
            findByEmail e (employees store') = findByEmail e (employees store))"
proof -
  let ?emps = "employees store"
  let ?ex = "fst (loadExistingEmployees (queryFails faults) orgId ?emps
                    (deduplicateEmails messages) now (snd (canProceed now opt)))"
  let ?items = "prepareEmployeeData messages ?ex epochNumber now"
  note prep = prepareEmployeeData_last_occurrence_wins
    [of messages ?ex epochNumber now faults orgId finished opt store r opt' store']
  from prep have emails: "map itemEmail ?items = deduplicateEmails messages"
    and dist: "distinct (deduplicateEmails messages)"
    and dset: "set (deduplicateEmails messages) = {e. \<exists>m\<in>set messages. messageEmail m = Some e}"
    by blast+
  from prep have items: "\<And>d. d \<in> set ?items \<Longrightarrow>
      \<exists>m. lastOccurrence (itemEmail d) messages = Some m \<and>
          itemData d = employeeDataOf (itemEmail d) m epochNumber now \<and>
          email (itemData d) = itemEmail d"
    by blast
  have out: "employees store' = commitBatch ?items ?emps"
    using noc run by (rule processUpserts_writes_loaded)
  have miss0: "fst (getFromCache (''org:'' @ orgId) now (snd (canProceed now opt))) = None"
    using miss getFromCache_cache [OF canProceed_cache] by simp
  from wf have de: "distinct (map (email \<circ> snd) ?emps)" by (simp add: oneDocPerEmail_def)
  have acc: "\<forall>d\<in>set ?items. email (itemData d) = itemEmail d \<and>
           itemRef d = map_option fst (findByEmail (itemEmail d) ?emps)"
  proof
    fix d assume d: "d \<in> set ?items"
    then have "itemEmail d \<in> set (deduplicateEmails messages)"
      using emails by (metis image_eqI set_map)
    moreover from this dset have "itemEmail d \<noteq> []"
      using messageEmail_nonempty by auto
    ultimately have "map_of ?ex (itemEmail d) = map_option fst (findByEmail (itemEmail d) ?emps)"
      using loadExistingEmployees_accurate [OF miss0 noq de] by blast
    with prepareEmployeeData_refs [OF d] items [OF d]
    show "email (itemData d) = itemEmail d \<and>
           itemRef d = map_option fst (findByEmail (itemEmail d) ?emps)"
      by auto
  qed
  from dist emails have dist': "distinct (map itemEmail ?items)" by simp
  note cb = commitBatch_accurate [OF wf dist' acc]
  have wf': "oneDocPerEmail (employees store')"
    using cb by (simp add: out)
  have other: "\<forall>e. (\<forall>m\<in>set messages. messageEmail m \<noteq> Some e) \<longrightarrow>
            findByEmail e (employees store') = findByEmail e ?emps"
  proof (intro allI impI)
    fix e assume "\<forall>m\<in>set messages. messageEmail m \<noteq> Some e"
    with dset have "e \<notin> set (map itemEmail ?items)" unfolding emails by auto
    then have "e \<notin> itemEmail ` set ?items" by simp
    with cb show "findByEmail e (employees store') = findByEmail e ?emps"
      unfolding out by blast
  qed
  have here: "\<forall>e m. lastOccurrence e messages = Some m \<longrightarrow>
            (\<exists>ref d. findByEmail e (employees store') = Some (ref, d) \<and>
               statusInOrg d = statusOrActive (msgStatusInOrg m) \<and>
               lastSeenEpoch d = epochNumber \<and> presentInLatest d \<and>
               (\<forall>r old. findByEmail e ?emps = Some (r, old) \<longrightarrow> ref = r))"
  proof (intro allI impI)
    fix e m assume last: "lastOccurrence e messages = Some m"
    from lastOccurrence_carries [OF this] dset have "e \<in> set (map itemEmail ?items)"
      unfolding emails by auto
    then obtain it where it: "it \<in> set ?items" "itemEmail it = e" by auto
    from items [OF it(1)] it(2) last
    have data: "itemData it = employeeDataOf e m epochNumber now" by auto
    from cb it(1) obtain ref x where
      f: "findByEmail (itemEmail it) (commitBatch ?items ?emps) = Some (ref, x)" and
      c: "case findByEmail (itemEmail it) ?emps of
            Some (r, old) \<Rightarrow> ref = r \<and> x = mergeFields old (itemData it)
          | None \<Rightarrow> ref \<notin> fst ` set ?emps \<and> x = itemData it"
      by blast
    from c data have "statusInOrg x = statusOrActive (msgStatusInOrg m) \<and>
        lastSeenEpoch x = epochNumber \<and> presentInLatest x \<and>
        (\<forall>r old. findByEmail e ?emps = Some (r, old) \<longrightarrow> ref = r)"
      unfolding it(2)
      by (auto simp: mergeFields_def employeeDataOf_def split: option.splits)
    with f it(2) show "\<exists>ref d. findByEmail e (employees store') = Some (ref, d) \<and>
               statusInOrg d = statusOrActive (msgStatusInOrg m) \<and>
               lastSeenEpoch d = epochNumber \<and> presentInLatest d \<and>
               (\<forall>r old. findByEmail e ?emps = Some (r, old) \<longrightarrow> ref = r)"
      unfolding out by blast
  qed
  from wf' here other show ?thesis by blast
qed

subsection \<open>The lookup cache between invocations\<close>

text \<open>
  Optimizer and store after a first invocation at time 1000 that upserts bob as
  \<open>active\<close> into an empty collection. \<open>loadExistingEmployees\<close> cached what its queries
  found before the write, the empty map, under \<open>org:acme\<close>.
\<close>

definition afterFirstUpsert :: "FirestoreOptimizer \<times> OrgStore" where
  "afterFirstUpsert =
     snd (processUpserts healthy ''acme'' [upsert ''bob@x.com'' ''active''] 1 1000 1001
            (newOptimizer 0, emptyOrgStore))"

lemma afterFirstUpsert_value [code]:
  "afterFirstUpsert =
     (\<lparr>cache = [(''org:acme'', \<lparr>data = [], timestamp = 1000, sizeBytes = 0\<rparr>)],
       metrics = \<lparr>totalProcessed = 1, totalErrors = 0, totalQueries = 1, totalWrites = 1,
                  queryTimeMs = 0, writeTimeMs = 0, cacheHits = 0, cacheMisses = 1,
                  startTime = 0\<rparr>,
       circuitState = CLOSED, circuitOpenTime = 0, currentBatchSize = 500\<rparr>,
      \<lparr>orgDoc = None,
       employees =
         [(0, \<lparr>email = ''bob@x.com'', statusInOrg = JStr ''active'', presentInLatest = True,
               lastSeenEpoch = 1, updatedAt = 1000, source = ''kafka:upsert'',
               lastEventId = None\<rparr>)]\<rparr>)"
  unfolding afterFirstUpsert_def by code_simp

text \<open>
  Claim C1 (after reconciliation only the status of an address's last occurrence is
  observable) fails on the code. A second invocation at time 2000, inside the cache
  TTL, carries bob twice, last as \<open>inactive\<close>. The prepared list is right (one item,
  \<open>inactive\<close>), but the lookup is answered from the cached map, which does not know
  bob, so the item is written as a new document: the collection then holds bob twice,
  \<open>active\<close> and \<open>inactive\<close>, and a lookup by address finds \<open>active\<close>.
\<close>

theorem processUpserts_stale_cache_duplicates_employee:
  "map (\<lambda>(ref, d). (ref, email d, statusInOrg d, lastSeenEpoch d)) (employees (snd afterFirstUpsert)) =
     [(0, ''bob@x.com'', JStr ''active'', 1)] \<and>
   map (\<lambda>d. (itemEmail d, statusInOrg (itemData d), itemRef d))
     (prepareEmployeeData [upsert ''bob@x.com'' ''left'', upsert ''bob@x.com'' ''inactive'']
        (fst (loadExistingEmployees (\<lambda>i. False) ''acme'' (employees (snd afterFirstUpsert))
                [''bob@x.com''] 2000 (fst afterFirstUpsert)))
        2 2000) =
     [(''bob@x.com'', JStr ''inactive'', None)] \<and>
   fst (processUpserts healthy ''acme''
          [upsert ''bob@x.com'' ''left'', upsert ''bob@x.com'' ''inactive''] 2 2000 2001
          afterFirstUpsert) =
     Inr \<lparr>processed = 1, skipped = 0, errors = 0\<rparr> \<and>
   map (\<lambda>(ref, d). (ref, email d, statusInOrg d, lastSeenEpoch d))
     (employees (snd (snd (processUpserts healthy ''acme''
        [upsert ''bob@x.com'' ''left'', upsert ''bob@x.com'' ''inactive''] 2 2000 2001
        afterFirstUpsert)))) =
     [(0, ''bob@x.com'', JStr ''active'', 1), (1, ''bob@x.com'', JStr ''inactive'', 2)] \<and>
   map_option (\<lambda>(ref, d). statusInOrg d)
     (findByEmail ''bob@x.com''
        (employees (snd (snd (processUpserts healthy ''acme''
           [upsert ''bob@x.com'' ''left'', upsert ''bob@x.com'' ''inactive''] 2 2000 2001
           afterFirstUpsert))))) =
     Some (JStr ''active'')"
  by code_simp

text \<open>
  The same second invocation merges into bob's document, leaving one document with
  \<open>inactive\<close>, when the lookup goes to the store: with an optimizer that has cached
  nothing, and with the same optimizer once the cache entry has expired.
\<close>

lemma processUpserts_fresh_cache_merges:
  "map (\<lambda>(ref, d). (ref, email d, statusInOrg d, lastSeenEpoch d))
     (employees (snd (snd (processUpserts healthy ''acme''
        [upsert ''bob@x.com'' ''left'', upsert ''bob@x.com'' ''inactive''] 2 2000 2001
        (newOptimizer 0, snd afterFirstUpsert))))) =
     [(0, ''bob@x.com'', JStr ''inactive'', 2)]"
  "map (\<lambda>(ref, d). (ref, email d, statusInOrg d, lastSeenEpoch d))
     (employees (snd (snd (processUpserts healthy ''acme''
        [upsert ''bob@x.com'' ''left'', upsert ''bob@x.com'' ''inactive''] 2 400000 400001
        afterFirstUpsert)))) =
     [(0, ''bob@x.com'', JStr ''inactive'', 2)]"
  by code_simp+

text \<open>
  A lookup that fails has the same effect within a single invocation: a chunk query that
  throws is counted as an error and answered with the empty map, so every address of the
  chunk is written as a new document beside the one it has.
\<close>

lemma processUpserts_failed_query_duplicates_employee:
  "map (\<lambda>(ref, d). (ref, email d, statusInOrg d, lastSeenEpoch d))
     (employees (snd (snd (processUpserts (healthy\<lparr>queryFails := (\<lambda>i. True)\<rparr>) ''acme''
        [upsert ''bob@x.com'' ''left'', upsert ''bob@x.com'' ''inactive''] 2 2000 2001
        (newOptimizer 0, snd afterFirstUpsert))))) =
     [(0, ''bob@x.com'', JStr ''active'', 1), (1, ''bob@x.com'', JStr ''inactive'', 2)]"
  by code_simp

text \<open>
  The lemma \<open>processUpserts_last_write_observable\<close> at this second invocation with an
  optimizer that has cached nothing: bob's document is still document 0 and holds
  \<open>inactive\<close>.
\<close>

lemma processUpserts_last_write_observable_instance:
  "\<exists>d. findByEmail ''bob@x.com''
         (employees (snd (snd (processUpserts healthy ''acme''
            [upsert ''bob@x.com'' ''left'', upsert ''bob@x.com'' ''inactive''] 2 2000 2001
            (newOptimizer 0, snd afterFirstUpsert))))) = Some (0, d) \<and>
       statusInOrg d = JStr ''inactive'' \<and> lastSeenEpoch d = 2"
proof -
  let ?ms = "[upsert ''bob@x.com'' ''left'', upsert ''bob@x.com'' ''inactive'']"
  let ?run = "processUpserts healthy ''acme'' ?ms 2 2000 2001 (newOptimizer 0, snd afterFirstUpsert)"
  have noq: "\<forall>i. \<not> queryFails healthy i" and noc: "\<forall>i. \<not> commitFails healthy i"
    by (simp_all add: healthy_def)
  have miss: "fst (getFromCache (''org:'' @ ''acme'') 2000 (newOptimizer 0)) = None"
    by code_simp
  have wf: "oneDocPerEmail (employees (snd afterFirstUpsert))"
    by code_simp
  have "fst ?run = Inr \<lparr>processed = 1, skipped = 0, errors = 0\<rparr>"
    by code_simp
  then have run: "?run = (Inr \<lparr>processed = 1, skipped = 0, errors = 0\<rparr>, fst (snd ?run), snd (snd ?run))"
    by (metis prod.collapse)
  have last: "lastOccurrence ''bob@x.com'' ?ms = Some (upsert ''bob@x.com'' ''inactive'')"
    by code_simp
  have before: "findByEmail ''bob@x.com'' (employees (snd afterFirstUpsert)) =
      Some (0, \<lparr>email = ''bob@x.com'', statusInOrg = JStr ''active'', presentInLatest = True,
               lastSeenEpoch = 1, updatedAt = 1000, source = ''kafka:upsert'',
               lastEventId = None\<rparr>)"
    by code_simp
  have status: "statusOrActive (msgStatusInOrg (upsert ''bob@x.com'' ''inactive'')) = JStr ''inactive''"
    by code_simp
  from processUpserts_last_write_observable [OF noq noc miss wf run] last before status
  show ?thesis by fastforce
qed

section \<open>Epoch runs (finalize.ts, the second part of src/normalizer/src/handlers/ingestDeltas.ts)\<close>

text \<open>
  \<open>beginRun\<close>: \<open>doc.exists ? (doc.data()?.currentEpoch || 0) : 0\<close>, plus one, written with
  merge semantics; the name only when a non-empty one is given.
\<close>

definition beginRun :: "string option \<Rightarrow> int \<Rightarrow> OrgStore \<Rightarrow> int \<times> OrgStore" where
  "beginRun orgName now store =
     (let current = (case orgDoc store of
                       None \<Rightarrow> 0
                     | Some org \<Rightarrow> (case currentEpoch org of None \<Rightarrow> 0 | Some c \<Rightarrow> c));
          newEpoch = current + 1;
          old = (case orgDoc store of
                   None \<Rightarrow> \<lparr>currentEpoch = None, lastFinalizedEpoch = None, name = None,
                             orgUpdatedAt = now\<rparr>
                 | Some org \<Rightarrow> org);
          org1 = old\<lparr>currentEpoch := Some newEpoch, orgUpdatedAt := now\<rparr>;
          org2 = (case orgName of
                    None \<Rightarrow> org1
                  | Some n \<Rightarrow> if n = [] then org1 else org1\<lparr>name := Some n\<rparr>)
      in (newEpoch, store\<lparr>orgDoc := Some org2\<rparr>))"

text \<open>
  The sweep's query: employees with \<open>presentInLatest == true\<close> and
  \<open>lastSeenEpoch < epochNumber\<close>, ordered by \<open>lastSeenEpoch\<close> and then by document id,
  starting after the cursor document, at most \<open>pageSize\<close> of them.
\<close>

definition staleEmployee :: "int \<Rightarrow> doc_ref \<times> Employee \<Rightarrow> bool" where
  "staleEmployee epochNumber d = (presentInLatest (snd d) \<and> lastSeenEpoch (snd d) < epochNumber)"

definition sortKey :: "doc_ref \<times> Employee \<Rightarrow> int \<times> nat" where
  "sortKey d = (lastSeenEpoch (snd d), fst d)"

definition finalizeQuery ::
  "int \<Rightarrow> nat \<Rightarrow> (doc_ref \<times> Employee) option \<Rightarrow> (doc_ref \<times> Employee) list \<Rightarrow>
   (doc_ref \<times> Employee) list" where
  "finalizeQuery epochNumber pageSize cursor emps =
     take pageSize
       (filter (\<lambda>d. case cursor of None \<Rightarrow> True | Some c \<Rightarrow> sortKey c < sortKey d)
          (sort_key sortKey (filter (staleEmployee epochNumber) emps)))"

text \<open>The batch of one page: every document of the snapshot is updated.\<close>

definition markAbsent ::
  "int \<Rightarrow> (doc_ref \<times> Employee) list \<Rightarrow> (doc_ref \<times> Employee) list \<Rightarrow> (doc_ref \<times> Employee) list" where
  "markAbsent now snapshot emps =
     foldl (\<lambda>acc (ref, e). updateDoc ref (\<lambda>d. d\<lparr>presentInLatest := False, updatedAt := now\<rparr>) acc)
       emps snapshot"

lemma markAbsent_map:
  "markAbsent now snapshot emps =
     map (\<lambda>(r, e). if r \<in> fst ` set snapshot
                     then (r, e\<lparr>presentInLatest := False, updatedAt := now\<rparr>) else (r, e)) emps"
proof (induction snapshot arbitrary: emps rule: rev_induct)
  case Nil
  then show ?case by (simp add: markAbsent_def)
next
  case (snoc d snapshot)
  obtain ref e where d: "d = (ref, e)" by (cases d)
  have "markAbsent now (snapshot @ [d]) emps =
      updateDoc ref (\<lambda>d. d\<lparr>presentInLatest := False, updatedAt := now\<rparr>) (markAbsent now snapshot emps)"
    by (simp add: markAbsent_def d)
  then show ?case
    by (auto simp: snoc.IH updateDoc_def d)
qed

lemma stale_after_markAbsent:
  "filter (staleEmployee epochNumber) (markAbsent now snapshot emps) =
     filter (\<lambda>d. fst d \<notin> fst ` set snapshot) (filter (staleEmployee epochNumber) emps)"
proof -
  define g where "g = (\<lambda>(r, e). if r \<in> fst ` set snapshot
      then (r, e\<lparr>presentInLatest := False, updatedAt := now\<rparr>) else (r :: doc_ref, e :: Employee))"
  have keep: "staleEmployee epochNumber (g x) \<longleftrightarrow> staleEmployee epochNumber x \<and> fst x \<notin> fst ` set snapshot"
    and same: "fst x \<notin> fst ` set snapshot \<Longrightarrow> g x = x" for x
    by (cases x; simp add: g_def staleEmployee_def)+
  have "filter (staleEmployee epochNumber) (map g emps) =
      filter (\<lambda>d. fst d \<notin> fst ` set snapshot) (filter (staleEmployee epochNumber) emps)"
    by (induction emps) (auto simp: keep same)
  then show ?thesis by (simp add: markAbsent_map g_def)
qed

lemma finalizeQuery_subset:
  "set (finalizeQuery epochNumber pageSize cursor emps) \<subseteq> set (filter (staleEmployee epochNumber) emps)"
  by (auto simp: finalizeQuery_def dest: in_set_takeD)

lemma markAbsent_fewer_stale:
  assumes "finalizeQuery epochNumber pageSize cursor emps \<noteq> []"
  shows "length (filter (staleEmployee epochNumber)
           (markAbsent now (finalizeQuery epochNumber pageSize cursor emps) emps))
         < length (filter (staleEmployee epochNumber) emps)"
proof -
  let ?snap = "finalizeQuery epochNumber pageSize cursor emps"
  from assms obtain d where d: "d \<in> set ?snap" by (cases ?snap) auto
  then have "d \<in> set (filter (staleEmployee epochNumber) emps)"
    using finalizeQuery_subset by blast
  moreover from d have "\<not> fst d \<notin> fst ` set ?snap" by simp
  ultimately show ?thesis
    unfolding stale_after_markAbsent by (rule length_filter_less)
qed

text \<open>
  The loop of \<open>finalizeRun\<close>: stop on an empty page, update the page, stop after a page
  shorter than \<open>pageSize\<close>, otherwise go on after the page's last document.
\<close>

function finalizeLoop ::
  "int \<Rightarrow> nat \<Rightarrow> int \<Rightarrow> (doc_ref \<times> Employee) option \<Rightarrow> nat \<Rightarrow> (doc_ref \<times> Employee) list \<Rightarrow>
   nat \<times> (doc_ref \<times> Employee) list" where
  "finalizeLoop epochNumber pageSize now lastDocSnapshot totalUpdated emps =
     (if finalizeQuery epochNumber pageSize lastDocSnapshot emps = [] then (totalUpdated, emps)
      else if length (finalizeQuery epochNumber pageSize lastDocSnapshot emps) < pageSize
      then (totalUpdated + length (finalizeQuery epochNumber pageSize lastDocSnapshot emps),
            markAbsent now (finalizeQuery epochNumber pageSize lastDocSnapshot emps) emps)
      else finalizeLoop epochNumber pageSize now
             (Some (last (finalizeQuery epochNumber pageSize lastDocSnapshot emps)))
             (totalUpdated + length (finalizeQuery epochNumber pageSize lastDocSnapshot emps))
             (markAbsent now (finalizeQuery epochNumber pageSize lastDocSnapshot emps) emps))"
  by pat_completeness auto
termination
  by (relation "measure (\<lambda>(epochNumber, pageSize, now, cursor, total, emps).
        length (filter (staleEmployee epochNumber) emps))")
     (auto intro: markAbsent_fewer_stale)

declare finalizeLoop.simps [simp del]

text \<open>
  \<open>finalizeRun\<close>: the sweep with \<open>pageSize = 1000\<close>, then the update of the organization
  document, which throws when that document does not exist (the employees it marked
  stay marked).
\<close>

definition finalizeRun :: "int \<Rightarrow> int \<Rightarrow> OrgStore \<Rightarrow> (js_error + unit) \<times> OrgStore" where
  "finalizeRun epochNumber now store =
     (case finalizeLoop epochNumber 1000 now None 0 (employees store) of
        (totalUpdated, emps) \<Rightarrow>
          (case orgDoc store of
             None \<Rightarrow> (Inl NotFound, store\<lparr>employees := emps\<rparr>)
           | Some org \<Rightarrow>
               (Inr (),
                store\<lparr>employees := emps,
                      orgDoc := Some (org\<lparr>currentEpoch := Some epochNumber,
                                         lastFinalizedEpoch := Some epochNumber,
                                         orgUpdatedAt := now\<rparr>)\<rparr>)))"

lemma sorted_take_drop_le:
  assumes "sorted (map f xs)" "x \<in> set (take n xs)" "y \<in> set (drop n xs)"
  shows "f x \<le> f y"
proof -
  have "sorted (map f (take n xs) @ map f (drop n xs))"
    using assms(1) by (simp flip: map_append)
  with assms(2,3) show ?thesis by (auto simp: sorted_append)
qed

lemma finalizeLoop_sweeps:
  assumes "0 < pageSize"
    and "\<forall>c. lastDocSnapshot = Some c \<longrightarrow>
           (\<forall>d\<in>set (filter (staleEmployee epochNumber) emps). sortKey c < sortKey d)"
  shows "filter (staleEmployee epochNumber)
           (snd (finalizeLoop epochNumber pageSize now lastDocSnapshot totalUpdated emps)) = []"
  using assms
proof (induction epochNumber pageSize now lastDocSnapshot totalUpdated emps rule: finalizeLoop.induct)
  case (1 epochNumber pageSize now lastDocSnapshot totalUpdated emps)
  let ?stale = "filter (staleEmployee epochNumber) emps"
  let ?sorted = "sort_key sortKey ?stale"
  let ?snap = "finalizeQuery epochNumber pageSize lastDocSnapshot emps"
  have after: "filter (\<lambda>d. case lastDocSnapshot of None \<Rightarrow> True | Some c \<Rightarrow> sortKey c < sortKey d) ?sorted = ?sorted"
    using "1.prems"(2) by (cases lastDocSnapshot) (auto intro!: filter_True)
  then have snap: "?snap = take pageSize ?sorted"
    by (simp add: finalizeQuery_def)
  show ?case
  proof (cases "?snap = []")
    case True
    with snap "1.prems"(1) have "?sorted = []" by (cases ?sorted) auto
    then have "set ?stale = {}" by (metis set_sort set_empty)
    then have "?stale = []" by (simp only: set_empty)
    with True show ?thesis by (simp add: finalizeLoop.simps [of epochNumber pageSize now lastDocSnapshot])
  next
    case False
    show ?thesis
    proof (cases "length ?snap < pageSize")
      case True
      from True snap have "length ?sorted < pageSize" by (simp add: min_def split: if_splits)
      then have "take pageSize ?sorted = ?sorted" by simp
      with snap have all: "?snap = ?sorted" by simp
      have "filter (\<lambda>d. fst d \<notin> fst ` set ?snap) ?stale = []"
        unfolding all by (auto simp: filter_empty_conv)
      with False True show ?thesis
        by (simp add: finalizeLoop.simps [of epochNumber pageSize now lastDocSnapshot] stale_after_markAbsent)
    next
      case full: False
      let ?emps1 = "markAbsent now ?snap emps"
      have inv: "\<forall>c. Some (last ?snap) = Some c \<longrightarrow>
           (\<forall>d\<in>set (filter (staleEmployee epochNumber) ?emps1). sortKey c < sortKey d)"
      proof (intro allI impI ballI)
        fix c d
        assume c: "Some (last ?snap) = Some c"
          and "d \<in> set (filter (staleEmployee epochNumber) ?emps1)"
        then have d: "d \<in> set ?stale" "fst d \<notin> fst ` set ?snap"
          by (auto simp: stale_after_markAbsent)
        from False have lastin: "last ?snap \<in> set ?snap" by simp
        from d have "d \<notin> set ?snap" by auto
        moreover from d(1) have "d \<in> set ?sorted" by simp
        moreover have "set ?sorted = set (take pageSize ?sorted) \<union> set (drop pageSize ?sorted)"
          by (simp flip: set_append)
        ultimately have indrop: "d \<in> set (drop pageSize ?sorted)"
          unfolding snap by blast
        have srt: "sorted (map sortKey ?sorted)" by (rule sorted_sort_key)
        from lastin have intake: "last ?snap \<in> set (take pageSize ?sorted)" by (simp only: snap)
        have le: "sortKey (last ?snap) \<le> sortKey d"
          using srt intake indrop by (rule sorted_take_drop_le)
        from lastin have "fst (last ?snap) \<in> fst ` set ?snap" by (rule imageI)
        with d(2) have "fst (last ?snap) \<noteq> fst d" by metis
        then have "sortKey (last ?snap) \<noteq> sortKey d" by (simp add: sortKey_def)
        with le c show "sortKey c < sortKey d" by auto
      qed
      from False full "1.IH" [OF False full "1.prems"(1) inv] show ?thesis
        by (simp add: finalizeLoop.simps [of epochNumber pageSize now lastDocSnapshot])
    qed
  qed
qed


text \<open>
  Claim C2: \<open>finalizeRun\<close> always comes back (the sweep is a total function); it
  succeeds when the organization document exists, and then no employee is left with
  \<open>presentInLatest = true\<close> and \<open>lastSeenEpoch < epochNumber\<close>, and the organization's
  \<open>lastFinalizedEpoch\<close> is \<open>epochNumber\<close>. The sweep sweeps for every positive page
  size, so also when the last page is exactly full.
\<close>

theorem finalizeRun_marks_all_absent:
  "(orgDoc store \<noteq> None \<longrightarrow> fst (finalizeRun epochNumber now store) = Inr ()) \<and>
   (fst (finalizeRun epochNumber now store) = Inr () \<longrightarrow>
      (\<forall>d\<in>set (employees (snd (finalizeRun epochNumber now store))).
         \<not> (presentInLatest (snd d) \<and> lastSeenEpoch (snd d) < epochNumber)) \<and>
      (\<exists>org. orgDoc (snd (finalizeRun epochNumber now store)) = Some org \<and>
             lastFinalizedEpoch org = Some epochNumber)) \<and>
   (0 < pageSize \<longrightarrow>
      (\<forall>d\<in>set (snd (finalizeLoop epochNumber pageSize now None 0 emps)).
         \<not> (presentInLatest (snd d) \<and> lastSeenEpoch (snd d) < epochNumber)))"
proof (intro conjI impI)
  have sweep: "filter (staleEmployee epochNumber) (snd (finalizeLoop epochNumber n now None 0 es)) = []"
    if "0 < n" for n es
    using that by (rule finalizeLoop_sweeps) simp
  show "fst (finalizeRun epochNumber now store) = Inr ()" if "orgDoc store \<noteq> None"
    using that by (auto simp: finalizeRun_def split: prod.splits option.splits)
  show "\<forall>d\<in>set (snd (finalizeLoop epochNumber pageSize now None 0 emps)).
         \<not> (presentInLatest (snd d) \<and> lastSeenEpoch (snd d) < epochNumber)"
    if "0 < pageSize"
    using sweep [OF that, of emps] by (auto simp: filter_empty_conv staleEmployee_def)
  assume ok: "fst (finalizeRun epochNumber now store) = Inr ()"
  have emps: "employees (snd (finalizeRun epochNumber now store)) =
      snd (finalizeLoop epochNumber 1000 now None 0 (employees store))"
    by (auto simp: finalizeRun_def split: prod.splits option.splits)
  show "\<forall>d\<in>set (employees (snd (finalizeRun epochNumber now store))).
         \<not> (presentInLatest (snd d) \<and> lastSeenEpoch (snd d) < epochNumber)"
    unfolding emps using sweep [of 1000 "employees store"]
    by (auto simp: filter_empty_conv staleEmployee_def)
  from ok show "\<exists>org. orgDoc (snd (finalizeRun epochNumber now store)) = Some org \<and>
             lastFinalizedEpoch org = Some epochNumber"
    by (auto simp: finalizeRun_def split: prod.splits option.splits)
qed

text \<open>
  Scenario S3 of the spec at the moment of \<open>finalize(2)\<close>: alice and bob were seen in
  epoch 2, charlie last in epoch 1.
\<close>

definition employeeDoc :: "string \<Rightarrow> string \<Rightarrow> bool \<Rightarrow> int \<Rightarrow> Employee" where
  "employeeDoc e s present epoch =
     \<lparr>email = e, statusInOrg = JStr s, presentInLatest = present, lastSeenEpoch = epoch,
      updatedAt = 1000, source = ''kafka:upsert'', lastEventId = None\<rparr>"

definition rosterInEpoch2 :: OrgStore where
  "rosterInEpoch2 =
     \<lparr>orgDoc = Some \<lparr>currentEpoch = Some 2, lastFinalizedEpoch = Some 1, name = None,
                      orgUpdatedAt = 1000\<rparr>,
      employees =
        [(0, employeeDoc ''alice@x.com'' ''active'' True 2),
         (1, employeeDoc ''bob@x.com'' ''active'' True 2),
         (2, employeeDoc ''charlie@x.com'' ''left'' True 1)]\<rparr>"

lemma rosterInEpoch2_finalized:
  "finalizeRun 2 5000 rosterInEpoch2 =
     (Inr (),
      \<lparr>orgDoc = Some \<lparr>currentEpoch = Some 2, lastFinalizedEpoch = Some 2, name = None,
                       orgUpdatedAt = 5000\<rparr>,
       employees =
         [(0, employeeDoc ''alice@x.com'' ''active'' True 2),
          (1, employeeDoc ''bob@x.com'' ''active'' True 2),
          (2, (employeeDoc ''charlie@x.com'' ''left'' False 1)\<lparr>updatedAt := 5000\<rparr>)]\<rparr>)"
  by code_simp

lemma full_last_page:
  "length (finalizeQuery 3 3 None (employees rosterInEpoch2)) = 3"
  "map (\<lambda>(ref, e). presentInLatest e) (snd (finalizeLoop 3 3 5000 None 0 (employees rosterInEpoch2))) =
     [False, False, False]"
  by code_simp+

theorem finalizeRun_marks_all_absent_witness:
  "orgDoc rosterInEpoch2 \<noteq> None \<and>
   fst (finalizeRun 2 5000 rosterInEpoch2) = Inr () \<and>
   map (\<lambda>(ref, e). (email e, presentInLatest e, lastSeenEpoch e))
     (employees (snd (finalizeRun 2 5000 rosterInEpoch2))) =
     [(''alice@x.com'', True, 2), (''bob@x.com'', True, 2), (''charlie@x.com'', False, 1)] \<and>
   list_all (\<lambda>d. \<not> (presentInLatest (snd d) \<and> lastSeenEpoch (snd d) < 2))
     (employees (snd (finalizeRun 2 5000 rosterInEpoch2))) \<and>
   map_option lastFinalizedEpoch (orgDoc (snd (finalizeRun 2 5000 rosterInEpoch2))) = Some (Some 2) \<and>
   length (finalizeQuery 3 3 None (employees rosterInEpoch2)) = 3 \<and>
   list_all (\<lambda>d. \<not> (presentInLatest (snd d) \<and> lastSeenEpoch (snd d) < 3))
     (snd (finalizeLoop 3 3 5000 None 0 (employees rosterInEpoch2)))"
proof -
  note inst = finalizeRun_marks_all_absent
    [where store = rosterInEpoch2 and epochNumber = 2 and now = 5000]
  note inst3 = finalizeRun_marks_all_absent
    [where epochNumber = 3 and now = 5000 and pageSize = 3 and emps = "employees rosterInEpoch2"]
  have h: "orgDoc rosterInEpoch2 \<noteq> None" by (simp add: rosterInEpoch2_def)
  with inst have ok: "fst (finalizeRun 2 5000 rosterInEpoch2) = Inr ()" by blast
  with inst have swept: "list_all (\<lambda>d. \<not> (presentInLatest (snd d) \<and> lastSeenEpoch (snd d) < 2))
      (employees (snd (finalizeRun 2 5000 rosterInEpoch2)))"
    and org: "\<exists>org. orgDoc (snd (finalizeRun 2 5000 rosterInEpoch2)) = Some org \<and>
             lastFinalizedEpoch org = Some 2"
    unfolding list_all_iff by blast+
  have "(0::nat) < 3" by simp
  with inst3 have swept3: "list_all (\<lambda>d. \<not> (presentInLatest (snd d) \<and> lastSeenEpoch (snd d) < 3))
      (snd (finalizeLoop 3 3 5000 None 0 (employees rosterInEpoch2)))"
    unfolding list_all_iff by blast
  from org have org': "map_option lastFinalizedEpoch (orgDoc (snd (finalizeRun 2 5000 rosterInEpoch2))) = Some (Some 2)"
    by auto
  have docs: "map (\<lambda>(ref, e). (email e, presentInLatest e, lastSeenEpoch e))
     (employees (snd (finalizeRun 2 5000 rosterInEpoch2))) =
     [(''alice@x.com'', True, 2), (''bob@x.com'', True, 2), (''charlie@x.com'', False, 1)]"
    by (simp add: rosterInEpoch2_finalized employeeDoc_def)
  from h ok swept org' swept3 docs full_last_page(1) show ?thesis by blast
qed

section \<open>Email validation (src/normalizer/src/status.ts)\<close>

text \<open>
  \<open>/^[^\s@]+@[^\s@]+\.[^\s@]+$/\<close> on the trimmed input: a non-empty run of characters
  that are neither white space nor \<open>@\<close>, an \<open>@\<close>, and a run of such characters that
  has a dot with at least one character on each side.
\<close>

definition emailChar :: "char \<Rightarrow> bool" where
  "emailChar c = (\<not> isSpace c \<and> c \<noteq> CHR ''@'')"

definition matchesEmailRegex :: "string \<Rightarrow> bool" where
  "matchesEmailRegex s =
     (takeWhile emailChar s \<noteq> [] \<and>
      (case dropWhile emailChar s of
         [] \<Rightarrow> False
       | c # domain \<Rightarrow>
           c = CHR ''@'' \<and> list_all emailChar domain \<and> CHR ''.'' \<in> set (butlast (tl domain))))"

definition isValidEmail :: "string option \<Rightarrow> bool" where
  "isValidEmail e = (case e of None \<Rightarrow> False | Some s \<Rightarrow> s \<noteq> [] \<and> matchesEmailRegex (trim s))"

section \<open>Deltas from the event stream (src/normalizer/src/handlers/ingestDeltas.ts)\<close>








lemma updateDoc_ids: "map fst (updateDoc ref f emps) = map fst emps"
  by (induction emps) (auto simp: updateDoc_def)













section \<open>The bridge's HTTP client (src/kafka-bridge/src/http.ts)\<close>

record HttpResponse =
  responseStatus :: nat
  responseText :: string

text \<open>
  What one request does: it answers with a status and a body, or it throws (a
  network error or a timeout). \<open>request attempt\<close> is the outcome of the attempt with
  that number; the back-off sleeps take time and change nothing else.
\<close>

datatype request_outcome = Responds nat string | Throws string

definition isRetryable :: "nat \<Rightarrow> bool" where
  "isRetryable status = (500 \<le> status \<or> status = 429)"

text \<open>
  The loop \<open>for (attempt = 0; attempt <= maxRetries; attempt++)\<close> from \<open>attempt\<close> on.
  The result is what \<open>postJson\<close> returns or throws, with the number of requests sent.
\<close>

function postJsonFrom ::
  "int \<Rightarrow> (int \<Rightarrow> request_outcome) \<Rightarrow> int \<Rightarrow> (js_error + HttpResponse) \<times> int" where
  "postJsonFrom maxRetries request attempt =
     (if \<not> attempt \<le> maxRetries then (Inl RetryLoopExit, attempt)
      else
        (case request attempt of
           Responds status body \<Rightarrow>
             if status = 409 then (Inr \<lparr>responseStatus = 200, responseText = body\<rparr>, attempt + 1)
             else if 200 \<le> status \<and> status < 300
             then (Inr \<lparr>responseStatus = status, responseText = body\<rparr>, attempt + 1)
             else if \<not> isRetryable status
             then (Inr \<lparr>responseStatus = status, responseText = body\<rparr>, attempt + 1)
             else if attempt < maxRetries then postJsonFrom maxRetries request (attempt + 1)
             else (Inr \<lparr>responseStatus = status, responseText = body\<rparr>, attempt + 1)
         | Throws err \<Rightarrow>
             if attempt < maxRetries then postJsonFrom maxRetries request (attempt + 1)
             else (Inl (NetworkError err), attempt + 1)))"
  by pat_completeness auto
termination
  by (relation "measure (\<lambda>(maxRetries, request, attempt). nat (maxRetries - attempt))") auto

declare postJsonFrom.simps [simp del]

definition postJson :: "int \<Rightarrow> (int \<Rightarrow> request_outcome) \<Rightarrow> (js_error + HttpResponse) \<times> int" where
  "postJson maxRetries request = postJsonFrom maxRetries request 0"

text \<open>An outcome after which the client tries again, if it has attempts left.\<close>

definition retried :: "request_outcome \<Rightarrow> bool" where
  "retried outcome =
     (case outcome of Responds status body \<Rightarrow> 500 \<le> status \<or> status = 429 | Throws err \<Rightarrow> True)"


lemma postJsonFrom_retry:
  "attempt < maxRetries \<Longrightarrow> retried (request attempt) \<Longrightarrow>
   postJsonFrom maxRetries request attempt = postJsonFrom maxRetries request (attempt + 1)"
  by (subst postJsonFrom.simps)
     (auto simp: retried_def isRetryable_def split: request_outcome.splits)

lemma postJsonFrom_skip:
  "a \<le> k \<Longrightarrow> k \<le> maxRetries \<Longrightarrow> (\<forall>j. a \<le> j \<and> j < k \<longrightarrow> retried (request j)) \<Longrightarrow>
   postJsonFrom maxRetries request a = postJsonFrom maxRetries request k"
proof (induction "nat (k - a)" arbitrary: a)
  case 0
  then show ?case by simp
next
  case (Suc n)
  then have lt: "a < k" by linarith
  with Suc.prems have "postJsonFrom maxRetries request a = postJsonFrom maxRetries request (a + 1)"
    by (intro postJsonFrom_retry) auto
  also have "\<dots> = postJsonFrom maxRetries request k"
    using Suc.hyps(2) Suc.prems lt by (intro Suc.hyps(1)) auto
  finally show ?case .
qed

lemma postJsonFrom_attempts:
  "attempt \<le> maxRetries \<Longrightarrow>
   attempt < snd (postJsonFrom maxRetries request attempt) \<and>
   snd (postJsonFrom maxRetries request attempt) \<le> maxRetries + 1"
proof (induction maxRetries request attempt rule: postJsonFrom.induct)
  case (1 maxRetries request attempt)
  show ?case
  proof (cases "attempt < maxRetries \<and> retried (request attempt)")
    case True
    then have "postJsonFrom maxRetries request attempt = postJsonFrom maxRetries request (attempt + 1)"
      by (simp add: postJsonFrom_retry)
    moreover have "attempt + 1 < snd (postJsonFrom maxRetries request (attempt + 1)) \<and>
        snd (postJsonFrom maxRetries request (attempt + 1)) \<le> maxRetries + 1"
    proof (cases "request attempt")
      case (Responds status body)
      with True "1.prems" show ?thesis
        by (intro "1.IH"(1) [of status body]) (auto simp: retried_def isRetryable_def)
    next
      case (Throws err)
      with True "1.prems" show ?thesis
        by (intro "1.IH"(2) [of err]) auto
    qed
    ultimately show ?thesis by simp
  next
    case False
    with "1.prems" show ?thesis
      by (subst (1 2) postJsonFrom.simps)
         (auto simp: retried_def isRetryable_def split: request_outcome.splits)
  qed
qed

text \<open>
  Claim C5. Let the attempts before attempt \<open>k\<close> have ended in a 5xx, a 429 or a
  thrown error, with \<open>k \<le> maxRetries\<close>. Then attempt \<open>k\<close> is made, and: a 409 there is
  returned at once as status 200; any other 4xx except 429 is returned at once as it
  is; a 5xx, a 429 or a thrown error is followed by another attempt while \<open>k <
  maxRetries\<close>, and ends the call (the response returned, the error thrown) at \<open>k =
  maxRetries\<close>. Never more than \<open>maxRetries + 1\<close> requests are sent.
\<close>

theorem postJson_retry_policy:
  "(0 \<le> k \<and> k \<le> maxRetries \<and> (\<forall>j. 0 \<le> j \<and> j < k \<longrightarrow> retried (request j)) \<longrightarrow>
      (request k = Responds 409 body \<longrightarrow>
         postJson maxRetries request = (Inr \<lparr>responseStatus = 200, responseText = body\<rparr>, k + 1)) \<and>
      (request k = Responds status body \<and> 400 \<le> status \<and> status < 500 \<and> status \<noteq> 429 \<and>
       status \<noteq> 409 \<longrightarrow>
         postJson maxRetries request = (Inr \<lparr>responseStatus = status, responseText = body\<rparr>, k + 1)) \<and>
      (retried (request k) \<and> k < maxRetries \<longrightarrow>
         postJson maxRetries request = postJsonFrom maxRetries request (k + 1) \<and>
         k + 2 \<le> snd (postJson maxRetries request)) \<and>
      (retried (request k) \<and> k = maxRetries \<longrightarrow>
         postJson maxRetries request =
           (case request k of
              Responds s b \<Rightarrow> Inr \<lparr>responseStatus = s, responseText = b\<rparr>
            | Throws err \<Rightarrow> Inl (NetworkError err),
            maxRetries + 1))) \<and>
   (0 \<le> maxRetries \<longrightarrow> snd (postJson maxRetries request) \<le> maxRetries + 1)"
proof (intro conjI impI)
  show "snd (postJson maxRetries request) \<le> maxRetries + 1" if "0 \<le> maxRetries"
    using postJsonFrom_attempts [of 0 maxRetries request] that by (simp add: postJson_def)
  assume h: "0 \<le> k \<and> k \<le> maxRetries \<and> (\<forall>j. 0 \<le> j \<and> j < k \<longrightarrow> retried (request j))"
  then have at: "postJson maxRetries request = postJsonFrom maxRetries request k"
    unfolding postJson_def by (intro postJsonFrom_skip) auto
  show "postJson maxRetries request = (Inr \<lparr>responseStatus = 200, responseText = body\<rparr>, k + 1)"
    if "request k = Responds 409 body"
    using h that unfolding at by (subst postJsonFrom.simps) simp
  show "postJson maxRetries request = (Inr \<lparr>responseStatus = status, responseText = body\<rparr>, k + 1)"
    if "request k = Responds status body \<and> 400 \<le> status \<and> status < 500 \<and> status \<noteq> 429 \<and> status \<noteq> 409"
    using h that unfolding at by (subst postJsonFrom.simps) (simp add: isRetryable_def)
  {
    assume r: "retried (request k) \<and> k < maxRetries"
    then show next_attempt: "postJson maxRetries request = postJsonFrom maxRetries request (k + 1)"
      unfolding at by (simp add: postJsonFrom_retry)
    from r have "k + 1 \<le> maxRetries" by simp
    from postJsonFrom_attempts [OF this, of request]
    show "k + 2 \<le> snd (postJson maxRetries request)"
      unfolding next_attempt by simp
  }
  show "postJson maxRetries request =
      (case request k of
         Responds s b \<Rightarrow> Inr \<lparr>responseStatus = s, responseText = b\<rparr>
       | Throws err \<Rightarrow> Inl (NetworkError err),
       maxRetries + 1)"
    if "retried (request k) \<and> k = maxRetries"
    using h that unfolding at
    by (subst postJsonFrom.simps)
       (auto simp: retried_def isRetryable_def split: request_outcome.splits)
qed

text \<open>
  With \<open>MAX_RETRIES = 8\<close>: a 503, then a timeout, then a 409; a 400 at once; and a
  server that always answers 503.
\<close>

definition flakyThenDuplicate :: "int \<Rightarrow> request_outcome" where
  "flakyThenDuplicate attempt =
     (if attempt = 0 then Responds 503 ''unavailable''
      else if attempt = 1 then Throws ''timeout''
      else Responds 409 ''duplicate'')"

theorem postJson_retry_policy_witness:
  "retried (flakyThenDuplicate 0) \<and> retried (flakyThenDuplicate 1) \<and>
   flakyThenDuplicate 2 = Responds 409 ''duplicate'' \<and>
   postJson 8 flakyThenDuplicate =
     (Inr \<lparr>responseStatus = 200, responseText = ''duplicate''\<rparr>, 3) \<and>
   postJson 8 (\<lambda>attempt. Responds 400 ''bad request'') =
     (Inr \<lparr>responseStatus = 400, responseText = ''bad request''\<rparr>, 1) \<and>
   postJson 8 (\<lambda>attempt. Responds 503 ''unavailable'') =
     (Inr \<lparr>responseStatus = 503, responseText = ''unavailable''\<rparr>, 9) \<and>
   snd (postJson 8 (\<lambda>attempt. Throws ''timeout'')) \<le> 9"
proof -
  have r0: "retried (flakyThenDuplicate 0)" and r1: "retried (flakyThenDuplicate 1)"
    and r2: "flakyThenDuplicate 2 = Responds 409 ''duplicate''"
    by (simp_all add: flakyThenDuplicate_def retried_def)
  have before: "\<forall>j. 0 \<le> j \<and> j < 2 \<longrightarrow> retried (flakyThenDuplicate j)"
  proof (intro allI impI)
    fix j :: int
    assume "0 \<le> j \<and> j < 2"
    then have "j = 0 \<or> j = 1" by auto
    with r0 r1 show "retried (flakyThenDuplicate j)" by auto
  qed
  have a: "postJson 8 flakyThenDuplicate =
      (Inr \<lparr>responseStatus = 200, responseText = ''duplicate''\<rparr>, 3)"
    using postJson_retry_policy
      [where k = 2 and maxRetries = 8 and request = flakyThenDuplicate and body = "''duplicate''"]
      before r2
    by simp
  have b: "postJson 8 (\<lambda>attempt. Responds 400 ''bad request'') =
      (Inr \<lparr>responseStatus = 400, responseText = ''bad request''\<rparr>, 1)"
    using postJson_retry_policy
      [where k = 0 and maxRetries = 8 and request = "\<lambda>attempt. Responds 400 ''bad request''"
         and body = "''bad request''" and status = 400]
    by auto
  have c: "postJson 8 (\<lambda>attempt. Responds 503 ''unavailable'') =
      (Inr \<lparr>responseStatus = 503, responseText = ''unavailable''\<rparr>, 9)"
    using postJson_retry_policy
      [where k = 8 and maxRetries = 8 and request = "\<lambda>attempt. Responds 503 ''unavailable''"]
    by (auto simp: retried_def)
  have d: "snd (postJson 8 (\<lambda>attempt. Throws ''timeout'')) \<le> 9"
    using postJson_retry_policy [where maxRetries = 8 and request = "\<lambda>attempt. Throws ''timeout''"]
    by simp
  from r0 r1 r2 a b c d show ?thesis by blast
qed

section \<open>Attachments (normalize.ts at the end of src/unnamed/part_000, the /ingest/email handler in src/unnamed/part_001)\<close>

text \<open>
  A parsed row. \<open>rawDeltaType\<close> is \<open>row.deltaType || row.delta_type\<close> and \<open>rawOrgName\<close>
  the first of the row's organization name columns.
\<close>

record RawEmployee =
  rawEmail :: "string option"
  rawStatusInOrg :: "string option"
  rawDeltaType :: "string option"
  rawOrgName :: "string option"

record NormalizedEmployee =
  normEmail :: string
  normStatusInOrg :: js_value

definition normalizeRow :: "RawEmployee \<Rightarrow> NormalizedEmployee option" where
  "normalizeRow row =
     (case rawEmail row of
        None \<Rightarrow> None
      | Some raw \<Rightarrow>
          let e = trim (toLowerCase raw) in
          if e = [] \<or> \<not> isValidEmail (Some e) then None
          else Some \<lparr>normEmail = e, normStatusInOrg = normalizeStatus (rawStatusInOrg row)\<rparr>)"

text \<open>
  One turn of the loop of \<open>handleUpserts\<close>: an invalid row is skipped; a valid one is
  merged into the employee with its address, or created. The store keeps the value it
  is handed.
\<close>

definition upsertRow ::
  "int \<Rightarrow> int \<Rightarrow> nat \<times> nat \<times> (doc_ref \<times> Employee) list \<Rightarrow> RawEmployee \<Rightarrow>
   nat \<times> nat \<times> (doc_ref \<times> Employee) list" where
  "upsertRow epochNumber now st row =
     (case st of (cnt, skip, emps) \<Rightarrow>
      case normalizeRow row of
        None \<Rightarrow> (cnt, skip + 1, emps)
      | Some n \<Rightarrow>
          let employeeData =
                \<lparr>email = normEmail n, statusInOrg = normStatusInOrg n, presentInLatest = True,
                 lastSeenEpoch = epochNumber, updatedAt = now, source = ''email:upsert'',
                 lastEventId = None\<rparr>
          in (case findByEmail (normEmail n) emps of
                Some (ref, doc) \<Rightarrow> (cnt + 1, skip, setMerge ref employeeData emps)
              | None \<Rightarrow> (cnt + 1, skip, setNew employeeData emps)))"

text \<open>
  \<open>handleUpserts\<close> returns nothing; the model returns the two counters of its log line
  \<open>Processed n employees, skipped m\<close>: \<open>n\<close> counts the documents written.
\<close>

definition handleUpserts ::
  "RawEmployee list \<Rightarrow> string option \<Rightarrow> int \<Rightarrow> OrgStore \<Rightarrow> (js_error + nat \<times> nat) \<times> OrgStore" where
  "handleUpserts rows orgName now store =
     (case beginRun orgName now store of
        (epochNumber, store1) \<Rightarrow>
          (case foldl (upsertRow epochNumber now) (0, 0, employees store1) rows of
             (cnt, skip, emps) \<Rightarrow>
               (case finalizeRun epochNumber now (store1\<lparr>employees := emps\<rparr>) of
                  (Inl err, store2) \<Rightarrow> (Inl err, store2)
                | (Inr u, store2) \<Rightarrow> (Inr (cnt, skip), store2))))"

text \<open>The \<open>switch (deltaType.toLowerCase())\<close> of the attachment deltas.\<close>

definition emailDeltaStatus :: "string \<Rightarrow> (string \<times> bool) option" where
  "emailDeltaStatus t =
     (let l = toLowerCase t in
      if l = ''left'' \<or> l = ''terminated'' then Some (''left'', False)
      else if l = ''inactive'' \<or> l = ''on_leave'' then Some (''inactive'', False)
      else if l = ''reactivated'' \<or> l = ''active'' then Some (''active'', True)
      else None)"

definition deltaRow ::
  "int \<Rightarrow> nat \<times> nat \<times> (doc_ref \<times> Employee) list \<Rightarrow> RawEmployee \<Rightarrow>
   nat \<times> nat \<times> (doc_ref \<times> Employee) list" where
  "deltaRow now st row =
     (case st of (cnt, skip, emps) \<Rightarrow>
      case rawDeltaType row of
        None \<Rightarrow> (cnt, skip + 1, emps)
      | Some t \<Rightarrow>
          if t = [] then (cnt, skip + 1, emps)
          else
            (case normalizeRow row of
               None \<Rightarrow> (cnt, skip + 1, emps)
             | Some n \<Rightarrow>
                 (case findByEmail (normEmail n) emps of
                    None \<Rightarrow> (cnt, skip + 1, emps)
                  | Some (ref, doc) \<Rightarrow>
                      (case emailDeltaStatus t of
                         None \<Rightarrow> (cnt, skip + 1, emps)
                       | Some (status, present) \<Rightarrow>
                           (cnt + 1, skip,
                            updateDoc ref
                              (\<lambda>d. d\<lparr>statusInOrg := JStr status, presentInLatest := present,
                                      updatedAt := now, source := ''email:delta''\<rparr>)
                              emps)))))"

definition handleDeltas ::
  "RawEmployee list \<Rightarrow> int \<Rightarrow> OrgStore \<Rightarrow> (nat \<times> nat) \<times> OrgStore" where
  "handleDeltas rows now store =
     (case foldl (deltaRow now) (0, 0, employees store) rows of
        (cnt, skip, emps) \<Rightarrow> ((cnt, skip), store\<lparr>employees := emps\<rparr>))"

text \<open>
  The request after its body or file has been parsed (the file decoders are not part of
  the model), and the response. \<open>handleEmail\<close> also yields the counters the row handler
  logged, or \<open>(0, 0)\<close> when none ran.
\<close>

record EmailRequest =
  reqOrgId :: "string option"
  reqOrgName :: "string option"
  reqKind :: "string option"
  reqRows :: "RawEmployee list option"

datatype email_response =
  EmailOk nat string
  | EmailBadRequest string
  | EmailServerError

definition orFirst :: "string option \<Rightarrow> string option \<Rightarrow> string option" where
  "orFirst a b = (if a = None \<or> a = Some [] then b else a)"

definition handleEmail ::
  "EmailRequest \<Rightarrow> int \<Rightarrow> OrgStore \<Rightarrow> email_response \<times> (nat \<times> nat) \<times> OrgStore" where
  "handleEmail req now store =
     (let kind = (case orFirst (reqKind req) (Some ''upserts'') of None \<Rightarrow> ''upserts'' | Some k \<Rightarrow> k);
          rows = (case reqRows req of None \<Rightarrow> [] | Some rs \<Rightarrow> rs)
      in if reqOrgId req = None \<or> reqOrgId req = Some []
         then (EmailBadRequest ''orgId is required'', (0, 0), store)
         else if rows = [] then (EmailBadRequest ''No data rows found'', (0, 0), store)
         else if kind = ''upserts'' then
           (case handleUpserts rows (orFirst (reqOrgName req) (rawOrgName (hd rows))) now store of
              (Inl err, store1) \<Rightarrow> (EmailServerError, (0, 0), store1)
            | (Inr counters, store1) \<Rightarrow> (EmailOk (length rows) kind, counters, store1))
         else
           (case handleDeltas rows now store of
              (counters, store1) \<Rightarrow> (EmailOk (length rows) kind, counters, store1)))"

lemma upsert_loop_counts:
  "foldl (upsertRow epochNumber now) (cnt, skip, emps) rows = (cnt', skip', emps') \<Longrightarrow>
   cnt' = cnt + length (filter (\<lambda>r. normalizeRow r \<noteq> None) rows) \<and>
   skip' = skip + length (filter (\<lambda>r. normalizeRow r = None) rows)"
proof (induction rows arbitrary: cnt skip emps)
  case Nil
  then show ?case by simp
next
  case (Cons row rows)
  obtain c1 s1 e1 where step: "upsertRow epochNumber now (cnt, skip, emps) row = (c1, s1, e1)"
    by (cases "upsertRow epochNumber now (cnt, skip, emps) row")
  then have one: "c1 = cnt + (if normalizeRow row = None then 0 else 1)"
      "s1 = skip + (if normalizeRow row = None then 1 else 0)"
    by (auto simp: upsertRow_def Let_def split: option.splits)
  from Cons.prems step have "foldl (upsertRow epochNumber now) (c1, s1, e1) rows = (cnt', skip', emps')"
    by simp
  from Cons.IH [OF this] one show ?case by simp
qed

lemma delta_loop_counts:
  "foldl (deltaRow now) (cnt, skip, emps) rows = (cnt', skip', emps') \<Longrightarrow>
   cnt' \<le> cnt + length (filter (\<lambda>r. normalizeRow r \<noteq> None) rows) \<and>
   cnt' + skip' = cnt + skip + length rows"
proof (induction rows arbitrary: cnt skip emps)
  case Nil
  then show ?case by simp
next
  case (Cons row rows)
  obtain c1 s1 e1 where step: "deltaRow now (cnt, skip, emps) row = (c1, s1, e1)"
    by (cases "deltaRow now (cnt, skip, emps) row")
  then have one: "c1 \<le> cnt + (if normalizeRow row = None then 0 else 1)" "c1 + s1 = cnt + skip + 1"
    by (auto simp: deltaRow_def split: option.splits if_splits)
  from Cons.prems step have "foldl (deltaRow now) (c1, s1, e1) rows = (cnt', skip', emps')"
    by simp
  from Cons.IH [OF this] one show ?case by auto
qed

lemma filter_length_split:
  "length (filter P xs) + length (filter (\<lambda>x. \<not> P x) xs) = length xs"
  by (induction xs) auto


text \<open>
  Claim C10: the success response of \<open>/ingest/email\<close> reports \<open>processed = rows.length\<close>,
  the number of parsed rows, while the row handler wrote fewer documents whenever a row
  failed validation: every row is either written or skipped, and a row that
  \<open>normalizeRow\<close> rejects is never written.
\<close>

theorem handleEmail_reports_row_count:
  "handleEmail req now store = (EmailOk n kind, (written, skippedRows), store') \<longrightarrow>
     (\<exists>rows. reqRows req = Some rows \<and> rows \<noteq> [] \<and> n = length rows \<and>
        written + skippedRows = length rows \<and>
        written \<le> length (filter (\<lambda>r. normalizeRow r \<noteq> None) rows) \<and>
        (kind = ''upserts'' \<longrightarrow> written = length (filter (\<lambda>r. normalizeRow r \<noteq> None) rows)) \<and>
        ((\<exists>r\<in>set rows. normalizeRow r = None) \<longrightarrow> written < n))"
proof
  assume run: "handleEmail req now store = (EmailOk n kind, (written, skippedRows), store')"
  then obtain rows where rows: "reqRows req = Some rows" "rows \<noteq> []"
    by (cases "reqRows req") (auto simp: handleEmail_def Let_def split: if_splits)
  let ?valid = "length (filter (\<lambda>r. normalizeRow r \<noteq> None) rows)"
  let ?invalid = "length (filter (\<lambda>r. normalizeRow r = None) rows)"
  have split: "?valid + ?invalid = length rows"
    using filter_length_split [of "\<lambda>r. normalizeRow r \<noteq> None" rows] by simp
  have n: "n = length rows"
    using run rows by (auto simp: handleEmail_def Let_def split: if_splits prod.splits sum.splits)
  have counts: "written + skippedRows = length rows \<and> written \<le> ?valid \<and>
      (kind = ''upserts'' \<longrightarrow> written = ?valid)"
  proof (cases "kind = ''upserts''")
    case True
    with run rows obtain st1 where
      hu: "handleUpserts rows (orFirst (reqOrgName req) (rawOrgName (hd rows))) now store =
        (Inr (written, skippedRows), st1)"
      by (auto simp: handleEmail_def Let_def split: if_splits prod.splits sum.splits)
    obtain epochNumber store1 where br:
      "beginRun (orFirst (reqOrgName req) (rawOrgName (hd rows))) now store = (epochNumber, store1)"
      by (cases "beginRun (orFirst (reqOrgName req) (rawOrgName (hd rows))) now store")
    obtain c s e where loop:
      "foldl (upsertRow epochNumber now) (0, 0, employees store1) rows = (c, s, e)"
      by (cases "foldl (upsertRow epochNumber now) (0, 0, employees store1) rows")
    from hu br loop have "written = c" "skippedRows = s"
      by (auto simp: handleUpserts_def split: prod.splits sum.splits)
    with upsert_loop_counts [OF loop] split show ?thesis by simp
  next
    case False
    with run rows obtain st1 where hd: "handleDeltas rows now store = ((written, skippedRows), st1)"
      by (auto simp: handleEmail_def Let_def split: if_splits prod.splits sum.splits)
    obtain c s e where loop: "foldl (deltaRow now) (0, 0, employees store) rows = (c, s, e)"
      by (cases "foldl (deltaRow now) (0, 0, employees store) rows")
    with hd have "written = c" "skippedRows = s" by (auto simp: handleDeltas_def)
    with delta_loop_counts [OF loop] False show ?thesis by simp
  qed
  have less: "written < n" if "\<exists>r\<in>set rows. normalizeRow r = None"
  proof -
    from that have "filter (\<lambda>r. normalizeRow r = None) rows \<noteq> []"
      by (auto simp: filter_empty_conv)
    then have "0 < ?invalid" by simp
    with split counts n show ?thesis by linarith
  qed
  from rows n counts less
  show "\<exists>rows. reqRows req = Some rows \<and> rows \<noteq> [] \<and> n = length rows \<and>
        written + skippedRows = length rows \<and>
        written \<le> length (filter (\<lambda>r. normalizeRow r \<noteq> None) rows) \<and>
        (kind = ''upserts'' \<longrightarrow> written = length (filter (\<lambda>r. normalizeRow r \<noteq> None) rows)) \<and>
        ((\<exists>r\<in>set rows. normalizeRow r = None) \<longrightarrow> written < n)"
    by (intro exI [of _ rows]) blast
qed

text \<open>An attachment of two rows, the second without a usable address.\<close>

definition twoRows :: "RawEmployee list" where
  "twoRows =
     [\<lparr>rawEmail = Some ''Alice@x.com'', rawStatusInOrg = Some ''Employed'', rawDeltaType = None,
       rawOrgName = None\<rparr>,
      \<lparr>rawEmail = Some ''not-an-address'', rawStatusInOrg = Some ''active'', rawDeltaType = None,
       rawOrgName = None\<rparr>]"

definition attachment :: EmailRequest where
  "attachment = \<lparr>reqOrgId = Some ''acme'', reqOrgName = None, reqKind = None, reqRows = Some twoRows\<rparr>"

lemma attachment_run:
  "handleEmail attachment 1000 emptyOrgStore =
     (EmailOk 2 ''upserts'', (1, 1),
      \<lparr>orgDoc = Some \<lparr>currentEpoch = Some 1, lastFinalizedEpoch = Some 1, name = None,
                       orgUpdatedAt = 1000\<rparr>,
       employees =
         [(0, \<lparr>email = ''alice@x.com'', statusInOrg = JStr ''active'', presentInLatest = True,
               lastSeenEpoch = 1, updatedAt = 1000, source = ''email:upsert'',
               lastEventId = None\<rparr>)]\<rparr>)"
  by code_simp

lemma second_row_invalid: "normalizeRow (twoRows ! 1) = None"
  by code_simp

theorem handleEmail_reports_row_count_witness:
  "reqRows attachment = Some twoRows \<and> length twoRows = 2 \<and>
   normalizeRow (twoRows ! 1) = None \<and>
   fst (handleEmail attachment 1000 emptyOrgStore) = EmailOk 2 ''upserts'' \<and>
   fst (snd (handleEmail attachment 1000 emptyOrgStore)) = (1, 1) \<and>
   length (employees (snd (snd (handleEmail attachment 1000 emptyOrgStore)))) = 1 \<and>
   (1 :: nat) < 2"
proof -
  let ?store' = "snd (snd (handleEmail attachment 1000 emptyOrgStore))"
  have run: "handleEmail attachment 1000 emptyOrgStore = (EmailOk 2 ''upserts'', (1, 1), ?store')"
    by (simp add: attachment_run)
  have rows: "reqRows attachment = Some twoRows" "length twoRows = 2"
    by (simp_all add: attachment_def twoRows_def)
  have "twoRows ! 1 \<in> set twoRows" by (simp add: twoRows_def)
  with second_row_invalid have bad: "\<exists>r\<in>set twoRows. normalizeRow r = None" by blast
  from handleEmail_reports_row_count
    [where req = attachment and now = 1000 and store = emptyOrgStore and n = 2
       and kind = "''upserts''" and written = 1 and skippedRows = 1 and store' = ?store']
    run rows bad
  have "(1 :: nat) < 2" by auto
  with run rows second_row_invalid show ?thesis by (simp add: attachment_run)
qed

end
